theory Spec2Isabelle
  imports Main "HOL-Library.Word"
begin

unbundle bit_operations_syntax

section \<open>Platform and conventions\<close>

text \<open>
  The development embeds \<^verbatim>\<open>dawg.hh\<close> and \<^verbatim>\<open>dawg.cc\<close>. Where C++ leaves a choice to
  the implementation the embedding follows the x86-64 ABI (gcc, clang and MSVC, the
  compilers the header provides for): plain \<^verbatim>\<open>char\<close> is a signed 8-bit integer,
  \<^verbatim>\<open>size_t\<close> is 64 bits wide and memory is little-endian.

  \<^item> \<^verbatim>\<open>uint32_t\<close>, \<^verbatim>\<open>Index\<close> and \<^verbatim>\<open>Magic\<close> are \<open>32 word\<close>; \<^verbatim>\<open>char\<close> is \<open>8 word\<close>, read
    with \<open>sint\<close> where the code compares or promotes it; \<^verbatim>\<open>std::string\<close> is a list of
    \<^verbatim>\<open>char\<close>.
  \<^item> A heap array is a pair of its allocated length and its contents; a pointer to
    one is an \<open>option\<close>, \<open>None\<close> being \<^verbatim>\<open>NULL\<close>. Every read and write is checked against
    the allocated length: an access through \<^verbatim>\<open>NULL\<close> or outside the array is undefined
    behaviour in C++ and is the fault \<open>InvalidAccess\<close> here.
  \<^item> \<^verbatim>\<open>assert\<close> is compiled in; a failed assertion is the fault \<open>AssertionFailure\<close>.
  \<^item> \<^verbatim>\<open>Status\<close> is \<open>bool\<close> (\<^verbatim>\<open>SUCCESS = true\<close>); the text streamed into \<^verbatim>\<open>error_\<close> is
    kept as a value of \<open>error\<close> that names the message.
\<close>

datatype fault = AssertionFailure | InvalidAccess

datatype error =
    CouldntReadFileIdentifier
  | FileIdentifierMismatched
  | CouldntReadNumberOfEdges
  | CouldntReadEdges
  | CouldntWriteMagicNumber
  | CouldntWriteNumberOfEdges
  | CouldntWriteData
  | WordIsTooLong
  | WordOutOfOrder
  | DawgIsFull
  | HashTableIsFull

type_synonym Index = "32 word"
type_synonym Edge = "32 word"
type_synonym cchar = "8 word"

type_synonym 'a array = "nat \<times> (nat \<Rightarrow> 'a)"
type_synonym 'a ptr = "'a array option"

definition new_array :: "nat \<Rightarrow> 'a \<Rightarrow> 'a ptr" where
  "new_array n v = Some (n, \<lambda>_. v)"

definition rd :: "'a ptr \<Rightarrow> nat \<Rightarrow> fault + 'a" where
  "rd p i = (case p of None \<Rightarrow> Inl InvalidAccess
             | Some (n, f) \<Rightarrow> if i < n then Inr (f i) else Inl InvalidAccess)"

definition wr :: "'a ptr \<Rightarrow> nat \<Rightarrow> 'a \<Rightarrow> fault + 'a ptr" where
  "wr p i v = (case p of None \<Rightarrow> Inl InvalidAccess
               | Some (n, f) \<Rightarrow> if i < n then Inr (Some (n, f(i := v))) else Inl InvalidAccess)"

text \<open>\<^verbatim>\<open>memset(p + off, 0, n * sizeof(T))\<close> and \<^verbatim>\<open>memcpy(dst, src, n * sizeof(T))\<close>.\<close>

definition memset0 :: "('a::zero) ptr \<Rightarrow> nat \<Rightarrow> nat \<Rightarrow> fault + 'a ptr" where
  "memset0 p off n = (case p of None \<Rightarrow> Inl InvalidAccess
     | Some (len, f) \<Rightarrow>
         if off + n \<le> len then Inr (Some (len, \<lambda>k. if off \<le> k \<and> k < off + n then 0 else f k))
         else Inl InvalidAccess)"

definition memcpy :: "'a ptr \<Rightarrow> 'a ptr \<Rightarrow> nat \<Rightarrow> fault + 'a ptr" where
  "memcpy dst src n = (case dst of None \<Rightarrow> Inl InvalidAccess
     | Some (dlen, df) \<Rightarrow> (case src of None \<Rightarrow> Inl InvalidAccess
         | Some (slen, sf) \<Rightarrow>
             if n \<le> dlen \<and> n \<le> slen then Inr (Some (dlen, \<lambda>k. if k < n then sf k else df k))
             else Inl InvalidAccess))"

text \<open>Sequencing of computations that may fault.\<close>

definition bindF :: "fault + 'a \<Rightarrow> ('a \<Rightarrow> fault + 'b) \<Rightarrow> fault + 'b" where
  "bindF m k = (case m of Inl e \<Rightarrow> Inl e | Inr x \<Rightarrow> k x)"

text \<open>Read-modify-write of one array element, as in \<^verbatim>\<open>p->end_of_node(true)\<close>.\<close>

definition modify :: "'a ptr \<Rightarrow> nat \<Rightarrow> ('a \<Rightarrow> 'a) \<Rightarrow> fault + 'a ptr" where
  "modify p i g = bindF (rd p i) (\<lambda>x. wr p i (g x))"

section \<open>Constants (dawg.cc, lines 6 to 11)\<close>

definition HASH_TABLE_SIZE :: "32 word" where "HASH_TABLE_SIZE = 1000003"
definition MAX_EDGES :: "32 word" where "MAX_EDGES = HASH_TABLE_SIZE - 1"
definition MAX_CHARS :: "32 word" where "MAX_CHARS = 256"
definition MAX_WORD_LENGTH :: "32 word" where "MAX_WORD_LENGTH = 32"
definition MAGIC_NUMBER :: "32 word" where "MAGIC_NUMBER = 0xC6ACC231"

section \<open>Edge (dawg.hh, lines 39 to 101)\<close>

text \<open>An \<^verbatim>\<open>Edge\<close> has the single member \<^verbatim>\<open>data_\<close>; it is modelled by that word.\<close>

definition MASK_LETTER :: "32 word" where "MASK_LETTER = 0x000000FF"
definition MASK_END_OF_WORD :: "32 word" where "MASK_END_OF_WORD = 0x00000100"
definition MASK_END_OF_NODE :: "32 word" where "MASK_END_OF_NODE = 0x00000200"
definition MASK_CHILD :: "32 word" where "MASK_CHILD = 0xFFFFFC00"
definition SHIFT_CHILD :: nat where "SHIFT_CHILD = 10"

definition letter :: "Edge \<Rightarrow> cchar" where
  "letter e = ucast (e AND MASK_LETTER)"

definition end_of_word :: "Edge \<Rightarrow> bool" where
  "end_of_word e = (e AND MASK_END_OF_WORD \<noteq> 0)"

definition end_of_node :: "Edge \<Rightarrow> bool" where
  "end_of_node e = (e AND MASK_END_OF_NODE \<noteq> 0)"

definition child :: "Edge \<Rightarrow> Index" where
  "child e = drop_bit SHIFT_CHILD (e AND MASK_CHILD)"

text \<open>
  The setters. In \<^verbatim>\<open>letter(char c)\<close> the operand \<^verbatim>\<open>c\<close> of \<^verbatim>\<open>|\<close> is promoted to
  \<^verbatim>\<open>int\<close> and then converted to \<^verbatim>\<open>uint32_t\<close>: a sign extension, \<open>scast\<close>.
\<close>

definition set_letter :: "cchar \<Rightarrow> Edge \<Rightarrow> Edge" where
  "set_letter c e = (e AND NOT MASK_LETTER) OR scast c"

definition set_end_of_word :: "bool \<Rightarrow> Edge \<Rightarrow> Edge" where
  "set_end_of_word v e = (if v then e OR MASK_END_OF_WORD else e AND NOT MASK_END_OF_WORD)"

definition set_end_of_node :: "bool \<Rightarrow> Edge \<Rightarrow> Edge" where
  "set_end_of_node v e = (if v then e OR MASK_END_OF_NODE else e AND NOT MASK_END_OF_NODE)"

definition set_child :: "Index \<Rightarrow> Edge \<Rightarrow> Edge" where
  "set_child n e = (e AND NOT MASK_CHILD) OR push_bit SHIFT_CHILD n"



section \<open>DAWG (dawg.hh, lines 104 to 161; dawg.cc, lines 17 to 177)\<close>

record DAWG =
  d_num_edges :: Index
  d_edges :: "Edge ptr"
  d_error :: "error option"

definition DAWG_new :: DAWG where
  "DAWG_new = \<lparr>d_num_edges = 0, d_edges = None, d_error = None\<rparr>"

definition DAWG_clear :: "DAWG \<Rightarrow> DAWG" where
  "DAWG_clear d = d\<lparr>d_edges := None, d_num_edges := 0\<rparr>"

text \<open>\<^verbatim>\<open>DAWG::load(Index, const Edge*)\<close> (lines 97 to 110).\<close>

definition load_mem :: "DAWG \<Rightarrow> Index \<Rightarrow> Edge ptr \<Rightarrow> fault + bool \<times> DAWG" where
  "load_mem d n src =
     (let d1 = DAWG_clear d;
          fresh = new_array (unat (n + 1)) (0 :: Edge)
      in bindF (memcpy fresh src (unat n)) (\<lambda>es.
         let d2 = d1\<lparr>d_edges := es, d_num_edges := n\<rparr>
         in bindF (rd (d_edges d2) (unat (d_num_edges d2))) (\<lambda>e.
            bindF (wr (d_edges d2) (unat (d_num_edges d2)) (set_child 1 e)) (\<lambda>es'.
            Inr (True, d2\<lparr>d_edges := es'\<rparr>)))))"

text \<open>
  An \<^verbatim>\<open>Iterator\<close> is modelled by its index: \<^verbatim>\<open>data_\<close> is always \<^verbatim>\<open>dawg_->edge(index_)\<close>,
  so comparing the pointers compares the indices. \<^verbatim>\<open>begin()\<close> is index 1 and \<^verbatim>\<open>end()\<close>
  is index 0. \<open>iter_next\<close> is \<^verbatim>\<open>operator++\<close>, given the edge under the iterator.
\<close>

definition iter_next :: "Edge \<Rightarrow> Index \<Rightarrow> Index" where
  "iter_next e i = (if end_of_node e then 0 else i + 1)"

function find_edge :: "DAWG \<Rightarrow> cchar \<Rightarrow> Index \<Rightarrow> fault + Index" where
  "find_edge d c i =
     (if i \<noteq> 0 then
        (case rd (d_edges d) (unat i) of
           Inl f \<Rightarrow> Inl f
         | Inr e \<Rightarrow> if letter e = c then Inr i else find_edge d c (iter_next e i))
      else Inr i)"
  by pat_completeness auto
termination
proof (relation "measure (\<lambda>(d, c, i). if i = 0 then 0
          else 1 + ((case d_edges d of None \<Rightarrow> 0 | Some (n, f) \<Rightarrow> n) - unat i))")
  show "wf (measure (\<lambda>(d, c, i). if i = 0 then 0
          else 1 + ((case d_edges d of None \<Rightarrow> 0 | Some (n, f) \<Rightarrow> n) - unat i)))"
    by simp
next
  fix d :: DAWG and c :: cchar and i :: Index and e :: Edge
  assume i: "i \<noteq> 0" and r: "rd (d_edges d) (unat i) = Inr e"
  from r obtain n f where nf: "d_edges d = Some (n, f)" and lt: "unat i < n"
    by (auto simp: rd_def split: option.splits if_splits)
  have "i + 1 \<noteq> 0 \<Longrightarrow> unat (i + 1) = unat i + 1"
    using unatSuc [of i] by (simp add: add.commute)
  then have "iter_next e i \<noteq> 0 \<Longrightarrow> unat (iter_next e i) = unat i + 1"
    by (auto simp: iter_next_def split: if_splits)
  with i lt nf
  show "((d, c, iter_next e i), (d, c, i)) \<in> measure (\<lambda>(d, c, i). if i = 0 then 0
          else 1 + ((case d_edges d of None \<Rightarrow> 0 | Some (n, f) \<Rightarrow> n) - unat i))"
    by auto
qed

text \<open>\<^verbatim>\<open>DAWG::contains_word\<close> (lines 154 to 169); the loop carries \<^verbatim>\<open>di\<close> and \<^verbatim>\<open>eow\<close>.\<close>

fun contains_loop :: "DAWG \<Rightarrow> cchar list \<Rightarrow> Index \<Rightarrow> bool \<Rightarrow> fault + bool" where
  "contains_loop d [] di eow = Inr eow"
| "contains_loop d (c # cs) di eow =
     bindF (find_edge d c di) (\<lambda>di'.
       if di' = 0 then Inr False
       else bindF (rd (d_edges d) (unat di')) (\<lambda>e.
              contains_loop d cs (child e) (end_of_word e)))"

definition contains_word :: "DAWG \<Rightarrow> cchar list \<Rightarrow> fault + bool" where
  "contains_word d word = contains_loop d word 1 False"


text \<open>
  Streams. An input stream is the bytes not yet extracted and its \<^verbatim>\<open>good()\<close> state;
  \<open>is_read\<close> is \<^verbatim>\<open>read\<close> followed by \<^verbatim>\<open>gcount\<close>: it returns the bytes extracted, fewer
  than asked for at the end of the data. An output stream is the bytes written, the
  number of bytes its sink still accepts, and its \<^verbatim>\<open>fail()\<close> state.
\<close>

record istream =
  in_bytes :: "8 word list"
  in_good :: bool

definition is_read :: "istream \<Rightarrow> nat \<Rightarrow> 8 word list \<times> istream" where
  "is_read s n =
     (if in_good s
      then (take n (in_bytes s),
            s\<lparr>in_bytes := drop n (in_bytes s), in_good := (n \<le> length (in_bytes s))\<rparr>)
      else ([], s))"

record ostream =
  out_bytes :: "8 word list"
  out_room :: nat
  out_fail :: bool

definition os_write :: "ostream \<Rightarrow> 8 word list \<Rightarrow> ostream" where
  "os_write s bs =
     (if out_fail s then s
      else if length bs \<le> out_room s
      then s\<lparr>out_bytes := out_bytes s @ bs, out_room := out_room s - length bs\<rparr>
      else s\<lparr>out_bytes := out_bytes s @ take (out_room s) bs, out_room := 0, out_fail := True\<rparr>)"

text \<open>The memory image of a 32-bit word, least significant byte first.\<close>

definition le_bytes :: "32 word \<Rightarrow> 8 word list" where
  "le_bytes w = [ucast w, ucast (drop_bit 8 w), ucast (drop_bit 16 w), ucast (drop_bit 24 w)]"

definition le_word :: "8 word list \<Rightarrow> 32 word" where
  "le_word bs = foldr (\<lambda>b w. ucast b OR push_bit 8 w) bs 0"

fun words_of :: "8 word list \<Rightarrow> 32 word list" where
  "words_of (b0 # b1 # b2 # b3 # bs) = le_word [b0, b1, b2, b3] # words_of bs"
| "words_of bs = []"

text \<open>
  \<^verbatim>\<open>DAWG::save\<close> (lines 113 to 140). \<open>read_edges\<close> reads the \<^verbatim>\<open>num_edges_\<close> words that
  \<^verbatim>\<open>out.write\<close> takes from \<^verbatim>\<open>edges_\<close>.
\<close>

fun read_edges :: "Edge ptr \<Rightarrow> nat \<Rightarrow> nat \<Rightarrow> fault + Edge list" where
  "read_edges p off n =
     (if n = 0 then Inr []
      else (case rd p off of
              Inl f \<Rightarrow> Inl f
            | Inr e \<Rightarrow> (case read_edges p (off + 1) (n - 1) of
                          Inl f \<Rightarrow> Inl f
                        | Inr es \<Rightarrow> Inr (e # es))))"

definition save :: "DAWG \<Rightarrow> ostream \<Rightarrow> fault + bool \<times> DAWG \<times> ostream" where
  "save d out =
     (if out_fail out then Inl AssertionFailure
      else let o1 = os_write out (le_bytes MAGIC_NUMBER) in
        if out_fail o1 then Inr (False, d\<lparr>d_error := Some CouldntWriteMagicNumber\<rparr>, o1)
        else let o2 = os_write o1 (le_bytes (d_num_edges d)) in
          if out_fail o2 then Inr (False, d\<lparr>d_error := Some CouldntWriteNumberOfEdges\<rparr>, o2)
          else bindF (read_edges (d_edges d) 0 (unat (d_num_edges d))) (\<lambda>es.
            let o3 = os_write o2 (concat (map le_bytes es)) in
            if out_fail o3 then Inr (False, d\<lparr>d_error := Some CouldntWriteData\<rparr>, o3)
            else Inr (True, d, o3)))"

text \<open>
  \<^verbatim>\<open>DAWG::load(std::istream&)\<close> (lines 33 to 94). The byte count
  \<^verbatim>\<open>sizeof(Edge) * num_edges\<close> is a \<^verbatim>\<open>size_t\<close>; \<^verbatim>\<open>(unsigned)num_read\<close> keeps the low 32 bits
  of the count of bytes read. The bytes read are stored into the new array, which
  has \<^verbatim>\<open>num_edges + 1\<close> elements, the sum taken in \<^verbatim>\<open>Index\<close>.
\<close>

definition load :: "DAWG \<Rightarrow> istream \<Rightarrow> fault + bool \<times> DAWG \<times> istream" where
  "load d input =
     (if \<not> in_good input then Inl AssertionFailure
      else let d0 = DAWG_clear d;
               (magic, i1) = is_read input 4 in
        if length magic \<noteq> 4
        then Inr (False, d0\<lparr>d_error := Some CouldntReadFileIdentifier\<rparr>, i1)
        else if le_word magic \<noteq> MAGIC_NUMBER
        then Inr (False, d0\<lparr>d_error := Some FileIdentifierMismatched\<rparr>, i1)
        else let (cnt, i2) = is_read i1 4 in
          if length cnt \<noteq> 4
          then Inr (False, d0\<lparr>d_error := Some CouldntReadNumberOfEdges\<rparr>, i2)
          else let n = le_word cnt;
                   size = unat (n + 1);
                   (body, i3) = is_read i2 (4 * unat n) in
            if length body > 4 * size then Inl InvalidAccess
            else if length body mod 2 ^ 32 \<noteq> 4 * unat n
            then Inr (False, DAWG_clear (d0\<lparr>d_error := Some CouldntReadEdges\<rparr>), i3)
            else let es = Some (size, \<lambda>k. if k < length (words_of body)
                                            then words_of body ! k else 0)
              in bindF (modify es (unat n) (set_child 1)) (\<lambda>es'.
                   Inr (True, d0\<lparr>d_edges := es', d_num_edges := n\<rparr>, i3)))"

section \<open>Creator (dawg.hh, lines 164 to 203; dawg.cc, lines 183 to 453)\<close>

text \<open>
  The record has the members of the class and one auxiliary history variable,
  \<open>committed\<close>: the list of the runs \<open>(start, length)\<close> that \<^verbatim>\<open>finish_node\<close> has copied
  into \<^verbatim>\<open>edges_\<close> and registered in \<^verbatim>\<open>hash_table_\<close> since \<^verbatim>\<open>start\<close>, oldest first. No
  function of the model reads it; it only names the committed nodes in statements
  about them.
\<close>

record Creator =
  num_edges :: Index
  edges :: "Edge ptr"
  hash_table :: "Index ptr"
  edge_stack :: "Edge ptr"
  num_edges_stack :: "Index ptr"
  stack_pos :: Index
  error :: "error option"
  committed :: "(nat \<times> nat) list"

definition is_null :: "'a ptr \<Rightarrow> bool" where
  "is_null p = (case p of None \<Rightarrow> True | Some _ \<Rightarrow> False)"

definition Creator_new :: Creator where
  "Creator_new = \<lparr>num_edges = 0, edges = None, hash_table = None, edge_stack = None,
                   num_edges_stack = None, stack_pos = 0, error = None, committed = []\<rparr>"

definition Creator_clear :: "Creator \<Rightarrow> Creator" where
  "Creator_clear c = c\<lparr>edges := None, num_edges := 0, hash_table := None,
                        edge_stack := None, num_edges_stack := None, stack_pos := 0\<rparr>"

text \<open>
  \<^verbatim>\<open>Creator::start\<close> (lines 218 to 237). \<^verbatim>\<open>new Edge[n]\<close> runs the default constructor,
  which zeroes \<^verbatim>\<open>data_\<close>; the two \<^verbatim>\<open>Index\<close> arrays are zeroed by \<^verbatim>\<open>memset\<close>.
\<close>

definition start :: "Creator \<Rightarrow> fault + bool \<times> Creator" where
  "start c =
     (if is_null (hash_table c) \<and> is_null (edges c) \<and> is_null (edge_stack c)
         \<and> is_null (num_edges_stack c)
      then Inr (True, c\<lparr>edges := new_array (unat MAX_EDGES) 0,
                         edge_stack := new_array (unat (MAX_CHARS * MAX_WORD_LENGTH)) 0,
                         hash_table := new_array (unat HASH_TABLE_SIZE) 0,
                         num_edges_stack := new_array (unat MAX_WORD_LENGTH) 0,
                         stack_pos := 0,
                         num_edges := 1 + MAX_CHARS,
                         committed := []\<rparr>)
      else Inl AssertionFailure)"

text \<open>
  \<^verbatim>\<open>get_edge\<close> and \<^verbatim>\<open>get_cur_edge\<close> (lines 239 to 244) return a pointer into
  \<^verbatim>\<open>edge_stack_\<close>, modelled by its offset. The offset is computed in \<^verbatim>\<open>Index\<close>
  arithmetic and then widened without sign.
\<close>

definition get_edge :: "Index \<Rightarrow> Index \<Rightarrow> nat" where
  "get_edge sp e = unat (sp * MAX_CHARS + e)"

definition get_cur_edge :: "Creator \<Rightarrow> Index \<Rightarrow> fault + nat" where
  "get_cur_edge c sp =
     bindF (rd (num_edges_stack c) (unat sp)) (\<lambda>n. Inr (get_edge sp (n - 1)))"

text \<open>
  \<^verbatim>\<open>compute_hash\<close> (lines 448 to 453) and the candidate node. The pair
  \<^verbatim>\<open>(Edge* edges, Index num_edges)\<close> that \<^verbatim>\<open>find_hash_index\<close> and \<^verbatim>\<open>compute_hash\<close>
  receive always points into \<^verbatim>\<open>edge_stack_\<close>; \<open>read_edges\<close> (above) reads the words it
  denotes, in the order in which \<^verbatim>\<open>compute_hash\<close> reads them.
\<close>

definition compute_hash :: "Edge list \<Rightarrow> Index" where
  "compute_hash es = foldl (\<lambda>result e. (push_bit 1 result OR drop_bit 31 result) XOR e) 0 es"

text \<open>
  \<^verbatim>\<open>find_hash_index\<close> (lines 403 to 446). \<open>node_matches\<close> is the comparison loop of
  lines 421 to 425; \<open>next_probe\<close> is lines 431 to 434; \<open>probe\<close> is the \<^verbatim>\<open>for (;;)\<close>
  loop, which has no bound of its own: it is a partial function, \<open>None\<close> standing
  for a loop that never returns. The result \<open>Inr None\<close> is \<^verbatim>\<open>FAILURE\<close> (hash
  table full) and \<open>Inr (Some idx)\<close> is \<^verbatim>\<open>SUCCESS\<close> with \<^verbatim>\<open>*out_hash_index = idx\<close>.
\<close>

fun node_matches :: "Edge ptr \<Rightarrow> Index \<Rightarrow> Edge list \<Rightarrow> fault + bool" where
  "node_matches E s [] = Inr True"
| "node_matches E s (x # xs) =
     (case rd E (unat s) of
        Inl f \<Rightarrow> Inl f
      | Inr e \<Rightarrow> if e \<noteq> x then Inr False else node_matches E (s + 1) xs)"

definition next_probe :: "Index \<times> Index \<Rightarrow> Index \<times> Index" where
  "next_probe p =
     (let idx = fst p + snd p;
          step = snd p + 9
      in (if idx > HASH_TABLE_SIZE then idx - HASH_TABLE_SIZE else idx,
          if step > HASH_TABLE_SIZE then step - HASH_TABLE_SIZE else step))"

partial_function (option) probe ::
  "Creator \<Rightarrow> Edge list \<Rightarrow> Index \<Rightarrow> Index \<Rightarrow> Index \<Rightarrow> (fault + Index option) option" where
  "probe c cand first_idx idx step =
     (case rd (hash_table c) (unat idx) of
        Inl f \<Rightarrow> Some (Inl f)
      | Inr s \<Rightarrow>
          if s = 0 then Some (Inr (Some idx))
          else (case node_matches (edges c) s cand of
                  Inl f \<Rightarrow> Some (Inl f)
                | Inr m \<Rightarrow>
                    if m then Some (Inr (Some idx))
                    else if fst (next_probe (idx, step)) = first_idx then Some (Inr None)
                    else probe c cand first_idx (fst (next_probe (idx, step)))
                                                (snd (next_probe (idx, step)))))"

declare probe.simps [code]

definition find_hash_index :: "Creator \<Rightarrow> nat \<Rightarrow> Index \<Rightarrow> (fault + Index option) option" where
  "find_hash_index c edges_off n =
     (case read_edges (edge_stack c) edges_off (unat n) of
        Inl f \<Rightarrow> Some (Inl f)
      | Inr cand \<Rightarrow>
          probe c cand (compute_hash cand mod HASH_TABLE_SIZE)
                       (compute_hash cand mod HASH_TABLE_SIZE) 9)"

text \<open>
  \<^verbatim>\<open>finish_node\<close> (lines 352 to 401). \<open>copy_node\<close> is the loop of lines 380 to 382 and
  \<open>commit_node\<close> the block of lines 369 to 389, which returns the status, the index
  \<^verbatim>\<open>idx\<close> and the new state.
\<close>

function copy_node :: "Creator \<Rightarrow> Index \<Rightarrow> Index \<Rightarrow> Index \<Rightarrow> fault + Creator" where
  "copy_node c idx pos i =
     (case rd (num_edges_stack c) (unat pos) of
        Inl f \<Rightarrow> Inl f
      | Inr n \<Rightarrow>
          if i < n then
            (case rd (edge_stack c) (get_edge pos i) of
               Inl f \<Rightarrow> Inl f
             | Inr e \<Rightarrow> (case wr (edges c) (unat (idx + i)) e of
                          Inl f \<Rightarrow> Inl f
                        | Inr es \<Rightarrow> copy_node (c\<lparr>edges := es\<rparr>) idx pos (i + 1)))
          else Inr c)"
  by pat_completeness auto
termination
proof (relation "measure (\<lambda>(c, idx, pos, i). 2 ^ 32 - unat i)")
  show "wf (measure (\<lambda>(c :: Creator, idx :: Index, pos :: Index, i :: Index). 2 ^ 32 - unat i))"
    by simp
next
  fix c :: Creator and idx pos i n :: Index and es :: "Edge ptr"
  assume "i < n"
  then have lt: "unat i < unat n"
    by (simp add: word_less_nat_alt)
  have "unat n < 2 ^ 32"
    using unsigned_less [of n, where 'a = nat] by simp
  with lt have "unat i + unat (1 :: Index) < 2 ^ LENGTH(32)"
    by simp
  then have "unat (i + 1) = unat i + unat (1 :: Index)"
    by (simp only: unat_add_lem [THEN iffD1])
  moreover have "unat i < 2 ^ 32"
    using unsigned_less [of i, where 'a = nat] by simp
  ultimately
  show "((c\<lparr>edges := es\<rparr>, idx, pos, i + 1), (c, idx, pos, i))
          \<in> measure (\<lambda>(c, idx, pos, i). 2 ^ 32 - unat i)"
    by simp
qed

definition commit_node :: "Creator \<Rightarrow> Index \<Rightarrow> Index \<Rightarrow> fault + bool \<times> Index \<times> Creator" where
  "commit_node c pos hash_idx =
     bindF (rd (num_edges_stack c) (unat pos)) (\<lambda>n.
       if num_edges c + n > MAX_EDGES
       then Inr (False, 0, c\<lparr>error := Some DawgIsFull\<rparr>)
       else bindF (copy_node c (num_edges c) pos 0) (\<lambda>c1.
            bindF (wr (hash_table c1) (unat hash_idx) (num_edges c1)) (\<lambda>ht.
            bindF (rd (num_edges_stack c1) (unat pos)) (\<lambda>n'.
              Inr (True, num_edges c1,
                   c1\<lparr>hash_table := ht,
                       num_edges := num_edges c1 + n',
                       committed := committed c1 @ [(unat (num_edges c1), unat n')]\<rparr>)))))"

definition finish_node_tail :: "Creator \<Rightarrow> Index \<Rightarrow> Index \<Rightarrow> fault + bool \<times> Creator" where
  "finish_node_tail c pos hash_idx =
     bindF (rd (hash_table c) (unat hash_idx)) (\<lambda>idx0.
     bindF (if idx0 = 0 then commit_node c pos hash_idx else Inr (True, idx0, c)) (\<lambda>(ok, idx, c2).
       if \<not> ok then Inr (False, c2)
       else bindF (get_cur_edge c2 (pos - 1)) (\<lambda>p.
            bindF (modify (edge_stack c2) p (set_child idx)) (\<lambda>st2.
            bindF (memset0 st2 (get_edge pos 0) (unat MAX_CHARS)) (\<lambda>st3.
            bindF (wr (num_edges_stack c2) (unat pos) 0) (\<lambda>ns.
              Inr (True, c2\<lparr>edge_stack := st3, num_edges_stack := ns\<rparr>)))))))"

definition finish_node :: "Creator \<Rightarrow> Index \<Rightarrow> (fault + bool \<times> Creator) option" where
  "finish_node c pos =
     (case bindF (get_cur_edge c pos) (\<lambda>p. modify (edge_stack c) p (set_end_of_node True)) of
        Inl f \<Rightarrow> Some (Inl f)
      | Inr st \<Rightarrow>
         (case rd (num_edges_stack c) (unat pos) of
            Inl f \<Rightarrow> Some (Inl f)
          | Inr n \<Rightarrow>
             (case find_hash_index (c\<lparr>edge_stack := st\<rparr>) (get_edge pos 0) n of
                None \<Rightarrow> None
              | Some r \<Rightarrow>
                  Some (bindF r (\<lambda>out.
                    case out of
                      None \<Rightarrow> Inr (False, c\<lparr>edge_stack := st, error := Some HashTableIsFull\<rparr>)
                    | Some hash_idx \<Rightarrow> finish_node_tail (c\<lparr>edge_stack := st\<rparr>) pos hash_idx)))))"


text \<open>
  \<^verbatim>\<open>add_word\<close> (lines 247 to 314). \<open>char_at\<close> is \<^verbatim>\<open>word[i]\<close>, which is the
  terminating \<^verbatim>\<open>'\0'\<close> at \<^verbatim>\<open>i == word.length()\<close>. The loops run after the length check,
  so \<^verbatim>\<open>word.length()\<close> is below 32 and the comparisons of an \<^verbatim>\<open>Index\<close> with it are
  comparisons in \<^verbatim>\<open>Index\<close>.
\<close>

definition char_at :: "cchar list \<Rightarrow> Index \<Rightarrow> cchar" where
  "char_at word i = (if unat i < length word then word ! unat i else 0)"

text \<open>Lines 265 to 268: the first position at which the word leaves the stack.\<close>

function first_diff :: "Creator \<Rightarrow> cchar list \<Rightarrow> Index \<Rightarrow> fault + Index" where
  "first_diff c word i =
     (if i \<le> stack_pos c \<and> i < of_nat (length word) then
        (case get_cur_edge c i of
           Inl f \<Rightarrow> Inl f
         | Inr p \<Rightarrow> (case rd (edge_stack c) p of
                      Inl f \<Rightarrow> Inl f
                    | Inr e \<Rightarrow> if char_at word i \<noteq> letter e then Inr i
                               else first_diff c word (i + 1)))
      else Inr i)"
  by pat_completeness auto
termination
proof (relation "measure (\<lambda>(c, word, i). 2 ^ 32 - unat i)")
  show "wf (measure (\<lambda>(c :: Creator, word :: cchar list, i :: Index). 2 ^ 32 - unat i))"
    by simp
next
  fix c :: Creator and word :: "cchar list" and i :: Index
  assume "i \<le> stack_pos c \<and> i < of_nat (length word)"
  then have lt: "unat i < unat (of_nat (length word) :: Index)"
    by (simp add: word_less_nat_alt)
  have "unat (of_nat (length word) :: Index) < 2 ^ 32"
    using unsigned_less [of "of_nat (length word) :: Index", where 'a = nat] by simp
  with lt have "unat i + unat (1 :: Index) < 2 ^ LENGTH(32)"
    by simp
  then have "unat (i + 1) = unat i + unat (1 :: Index)"
    by (simp only: unat_add_lem [THEN iffD1])
  moreover have "unat i < 2 ^ 32"
    using unsigned_less [of i, where 'a = nat] by simp
  ultimately
  show "((c, word, i + 1), (c, word, i)) \<in> measure (\<lambda>(c, word, i). 2 ^ 32 - unat i)"
    by simp
qed

text \<open>
  The loop that finishes the nodes above a stack position (lines 279 to 284 with
  bound \<^verbatim>\<open>i\<close>, lines 324 to 328 with bound 0). The first component of the result
  is false when a \<^verbatim>\<open>finish_node\<close> returned \<^verbatim>\<open>FAILURE\<close> and the caller returns at once.
  \<^verbatim>\<open>finish_node\<close> does not assign \<^verbatim>\<open>stack_pos_\<close> (lemma \<open>finish_node_stack_pos\<close> below), so
  the decrement is written on the value the loop test has just read.
\<close>

function finish_nodes :: "Creator \<Rightarrow> Index \<Rightarrow> (fault + bool \<times> Creator) option" where
  "finish_nodes c i =
     (if stack_pos c > i then
        (case finish_node c (stack_pos c) of
           None \<Rightarrow> None
         | Some r \<Rightarrow>
            (case r of
               Inl f \<Rightarrow> Some (Inl f)
             | Inr sc \<Rightarrow>
                 if \<not> fst sc then Some (Inr (False, snd sc))
                 else finish_nodes ((snd sc)\<lparr>stack_pos := stack_pos c - 1\<rparr>) i))
      else Some (Inr (True, c)))"
  by pat_completeness auto
termination
proof (relation "measure (\<lambda>(c, i). unat (stack_pos c))")
  show "wf (measure (\<lambda>(c :: Creator, i :: Index). unat (stack_pos c)))"
    by simp
next
  fix c :: Creator and i :: Index and sc :: "bool \<times> Creator"
  assume gt: "i < stack_pos c"
  then have "stack_pos c \<noteq> 0"
    by (auto simp: word_less_nat_alt)
  then have "unat (stack_pos c - 1) < unat (stack_pos c)"
    by (simp add: unat_minus_one unat_gt_0)
  then show "((snd sc\<lparr>stack_pos := stack_pos c - 1\<rparr>, i), (c, i))
          \<in> measure (\<lambda>(c, i). unat (stack_pos c))"
    by simp
qed

text \<open>Lines 262 to 292: leave the stack at the depth where the new word continues.\<close>

definition rewind :: "Creator \<Rightarrow> cchar list \<Rightarrow> (fault + bool \<times> Creator) option" where
  "rewind c word =
     (if stack_pos c > 0 then
        (case first_diff c word 0 of
           Inl f \<Rightarrow> Some (Inl f)
         | Inr i \<Rightarrow>
             if i \<le> stack_pos c then
               (case bindF (get_cur_edge c i) (rd (edge_stack c)) of
                  Inl f \<Rightarrow> Some (Inl f)
                | Inr e \<Rightarrow>
                    if sint (char_at word i) < sint (letter e)
                    then Some (Inr (False, c\<lparr>error := Some WordOutOfOrder\<rparr>))
                    else finish_nodes c i)
             else Some (Inr (True, c\<lparr>stack_pos := stack_pos c + 1\<rparr>)))
      else Some (Inr (True, c)))"

text \<open>Lines 295 to 299.\<close>

function append_letters :: "Creator \<Rightarrow> cchar list \<Rightarrow> fault + Creator" where
  "append_letters c word =
     (if stack_pos c < of_nat (length word) then
        (case modify (num_edges_stack c) (unat (stack_pos c)) (\<lambda>n. n + 1) of
           Inl f \<Rightarrow> Inl f
         | Inr ns \<Rightarrow>
            (case get_cur_edge (c\<lparr>num_edges_stack := ns\<rparr>) (stack_pos c) of
               Inl f \<Rightarrow> Inl f
             | Inr p \<Rightarrow>
                (case modify (edge_stack c) p (set_letter (char_at word (stack_pos c))) of
                   Inl f \<Rightarrow> Inl f
                 | Inr st \<Rightarrow>
                     append_letters (c\<lparr>num_edges_stack := ns, edge_stack := st,
                                       stack_pos := stack_pos c + 1\<rparr>) word)))
      else Inr c)"
  by pat_completeness auto
termination
proof (relation "measure (\<lambda>(c, word). 2 ^ 32 - unat (stack_pos c))")
  show "wf (measure (\<lambda>(c :: Creator, word :: cchar list). 2 ^ 32 - unat (stack_pos c)))"
    by simp
next
  fix c :: Creator and word :: "cchar list" and ns :: "Index ptr" and st :: "Edge ptr"
  assume "stack_pos c < of_nat (length word)"
  then have lt: "unat (stack_pos c) < unat (of_nat (length word) :: Index)"
    by (simp add: word_less_nat_alt)
  have "unat (of_nat (length word) :: Index) < 2 ^ 32"
    using unsigned_less [of "of_nat (length word) :: Index", where 'a = nat] by simp
  with lt have "unat (stack_pos c) + unat (1 :: Index) < 2 ^ LENGTH(32)"
    by simp
  then have "unat (stack_pos c + 1) = unat (stack_pos c) + unat (1 :: Index)"
    by (simp only: unat_add_lem [THEN iffD1])
  moreover have "unat (stack_pos c) < 2 ^ 32"
    using unsigned_less [of "stack_pos c", where 'a = nat] by simp
  ultimately
  show "((c\<lparr>num_edges_stack := ns, edge_stack := st, stack_pos := stack_pos c + 1\<rparr>, word),
         (c, word)) \<in> measure (\<lambda>(c, word). 2 ^ 32 - unat (stack_pos c))"
    by simp
qed

definition add_word :: "Creator \<Rightarrow> cchar list \<Rightarrow> (fault + bool \<times> Creator) option" where
  "add_word c word =
     (if is_null (hash_table c) \<or> is_null (edges c) \<or> is_null (edge_stack c)
         \<or> is_null (num_edges_stack c)
      then Some (Inl AssertionFailure)
      else if length word \<ge> unat MAX_WORD_LENGTH
      then Some (Inr (False, c\<lparr>error := Some WordIsTooLong\<rparr>))
      else (case rewind c word of
              None \<Rightarrow> None
            | Some r \<Rightarrow>
                Some (bindF r (\<lambda>(ok, c1).
                  if \<not> ok then Inr (False, c1)
                  else bindF (append_letters c1 word) (\<lambda>c2.
                       bindF (get_cur_edge c2 (stack_pos c2 - 1)) (\<lambda>p.
                       bindF (modify (edge_stack c2) p (set_end_of_word True)) (\<lambda>st.
                         Inr (True, c2\<lparr>stack_pos := stack_pos c2 - 1, edge_stack := st\<rparr>))))))))"

text \<open>
  \<^verbatim>\<open>finish\<close> (lines 316 to 350). \<open>copy_root\<close> is the loop of lines 335 and 336, after
  which \<^verbatim>\<open>i\<close> is \<^verbatim>\<open>MAX_CHARS\<close>. The result is the new \<^verbatim>\<open>DAWG\<close> (\<open>None\<close> for the \<^verbatim>\<open>NULL\<close>
  returned after a failed \<^verbatim>\<open>finish_node\<close>) and the state of the \<^verbatim>\<open>Creator\<close>.
\<close>

function copy_root :: "Creator \<Rightarrow> Index \<Rightarrow> fault + Creator" where
  "copy_root c i =
     (if i < MAX_CHARS then
        (case rd (edge_stack c) (get_edge 0 i) of
           Inl f \<Rightarrow> Inl f
         | Inr e \<Rightarrow> (case wr (edges c) (unat (1 + i)) e of
                      Inl f \<Rightarrow> Inl f
                    | Inr es \<Rightarrow> copy_root (c\<lparr>edges := es\<rparr>) (i + 1)))
      else Inr c)"
  by pat_completeness auto
termination
proof (relation "measure (\<lambda>(c, i). 2 ^ 32 - unat i)")
  show "wf (measure (\<lambda>(c :: Creator, i :: Index). 2 ^ 32 - unat i))"
    by simp
next
  fix c :: Creator and i :: Index and es :: "Edge ptr"
  assume "i < MAX_CHARS"
  then have lt: "unat i < 256"
    by (simp add: word_less_nat_alt MAX_CHARS_def)
  then have "unat i + unat (1 :: Index) < 2 ^ LENGTH(32)"
    by simp
  then have "unat (i + 1) = unat i + unat (1 :: Index)"
    by (simp only: unat_add_lem [THEN iffD1])
  with lt show "((c\<lparr>edges := es\<rparr>, i + 1), (c, i)) \<in> measure (\<lambda>(c, i). 2 ^ 32 - unat i)"
    by simp
qed

definition finish :: "Creator \<Rightarrow> (fault + DAWG option \<times> Creator) option" where
  "finish c =
     (if is_null (hash_table c) \<or> is_null (edges c) \<or> is_null (edge_stack c)
         \<or> is_null (num_edges_stack c)
      then Some (Inl AssertionFailure)
      else (case finish_nodes c 0 of
              None \<Rightarrow> None
            | Some r \<Rightarrow>
                Some (bindF r (\<lambda>(ok, c1).
                  if \<not> ok then Inr (None, c1)
                  else bindF (get_cur_edge c1 0) (\<lambda>p.
                       bindF (modify (edge_stack c1) p (set_end_of_node True)) (\<lambda>st.
                       bindF (copy_root (c1\<lparr>edge_stack := st\<rparr>) 0) (\<lambda>c2.
                       bindF (modify (edges c2) (unat (1 + MAX_CHARS - 1)) (set_end_of_node True)) (\<lambda>es.
                       bindF (load_mem DAWG_new (num_edges c2) es) (\<lambda>(ok, d).
                         Inr (Some d, Creator_clear (c2\<lparr>edges := es\<rparr>)))))))))))"

text \<open>Feeding a list of words to \<^verbatim>\<open>add_word\<close>, stopping at the first that does not succeed.\<close>

fun add_words :: "Creator \<Rightarrow> cchar list list \<Rightarrow> (fault + bool \<times> Creator) option" where
  "add_words c [] = Some (Inr (True, c))"
| "add_words c (w # ws) =
     (case add_word c w of
        None \<Rightarrow> None
      | Some r \<Rightarrow> (case r of
                     Inl f \<Rightarrow> Some (Inl f)
                   | Inr sc \<Rightarrow> if fst sc then add_words (snd sc) ws else Some (Inr sc)))"

text \<open>
  The whole build: \<^verbatim>\<open>Creator\<close> constructor, \<^verbatim>\<open>start\<close>, \<^verbatim>\<open>add_word\<close> for each word in order,
  \<^verbatim>\<open>finish\<close>. The result is the \<^verbatim>\<open>DAWG\<close>, or \<open>None\<close> where a call returned \<^verbatim>\<open>FAILURE\<close> or \<^verbatim>\<open>NULL\<close>.
\<close>

definition build :: "cchar list list \<Rightarrow> (fault + DAWG option) option" where
  "build ws =
     (case start Creator_new of
        Inl f \<Rightarrow> Some (Inl f)
      | Inr sc \<Rightarrow>
          (case add_words (snd sc) ws of
             None \<Rightarrow> None
           | Some r \<Rightarrow>
              (case r of
                 Inl f \<Rightarrow> Some (Inl f)
               | Inr sc' \<Rightarrow>
                   if \<not> fst sc' then Some (Inr None)
                   else (case finish (snd sc') of
                           None \<Rightarrow> None
                         | Some r' \<Rightarrow> Some (bindF r' (\<lambda>dc. Inr (fst dc)))))))"

definition contains :: "cchar list list \<Rightarrow> cchar list \<Rightarrow> (fault + bool) option" where
  "contains ws w = (case build ws of
       None \<Rightarrow> None
     | Some r \<Rightarrow> Some (bindF r (\<lambda>d. case d of None \<Rightarrow> Inr False | Some g \<Rightarrow> contains_word g w)))"



section \<open>Notions used in the statements\<close>

text \<open>The state that \<^verbatim>\<open>start\<close> leaves behind on a new \<^verbatim>\<open>Creator\<close>.\<close>

definition started :: Creator where
  "started = \<lparr>num_edges = 257, edges = Some (1000002, \<lambda>_. 0),
     hash_table = Some (1000003, \<lambda>_. 0), edge_stack = Some (8192, \<lambda>_. 0),
     num_edges_stack = Some (32, \<lambda>_. 0), stack_pos = 0, error = None, committed = []\<rparr>"

text \<open>
  A \<^verbatim>\<open>Creator\<close> is unstarted when one of its four working buffers is \<^verbatim>\<open>NULL\<close>: before
  \<^verbatim>\<open>start\<close>, and after \<^verbatim>\<open>clear\<close> or \<^verbatim>\<open>finish\<close>.
\<close>

definition unstarted :: "Creator \<Rightarrow> bool" where
  "unstarted c \<longleftrightarrow> is_null (hash_table c) \<or> is_null (edges c) \<or> is_null (edge_stack c)
     \<or> is_null (num_edges_stack c)"

text \<open>A call returned \<^verbatim>\<open>FAILURE\<close> (for \<^verbatim>\<open>finish\<close>: \<^verbatim>\<open>NULL\<close>) to its caller.\<close>

definition returned_failure :: "(fault + bool \<times> Creator) option \<Rightarrow> bool" where
  "returned_failure r = (case r of Some (Inr sc) \<Rightarrow> \<not> fst sc | _ \<Rightarrow> False)"

definition returned_success :: "(fault + bool \<times> Creator) option \<Rightarrow> bool" where
  "returned_success r = (case r of Some (Inr sc) \<Rightarrow> fst sc | _ \<Rightarrow> False)"

definition returned_error :: "(fault + bool \<times> Creator) option \<Rightarrow> error option" where
  "returned_error r = (case r of Some (Inr sc) \<Rightarrow> error (snd sc) | _ \<Rightarrow> None)"

definition returned_null :: "(fault + DAWG option \<times> Creator) option \<Rightarrow> bool" where
  "returned_null r = (case r of Some (Inr dc) \<Rightarrow> fst dc = None | _ \<Rightarrow> False)"


text \<open>
  Twenty-four two-letter words in ascending order: \<^verbatim>\<open>a\<close> followed by each of
  \<^verbatim>\<open>7abdefghijkl\<close>, then \<^verbatim>\<open>b\<close> followed by each of \<^verbatim>\<open>7abdefgijkln\<close>.
\<close>

definition colliding_words :: "cchar list list" where
  "colliding_words =
    [[0x61, 0x37], [0x61, 0x61], [0x61, 0x62], [0x61, 0x64],
     [0x61, 0x65], [0x61, 0x66], [0x61, 0x67], [0x61, 0x68],
     [0x61, 0x69], [0x61, 0x6A], [0x61, 0x6B], [0x61, 0x6C],
     [0x62, 0x37], [0x62, 0x61], [0x62, 0x62], [0x62, 0x64],
     [0x62, 0x65], [0x62, 0x66], [0x62, 0x67], [0x62, 0x69],
     [0x62, 0x6A], [0x62, 0x6B], [0x62, 0x6C], [0x62, 0x6E]]"

text \<open>
  A well-formed edge array, as \<^verbatim>\<open>load\<close> (both variants) leaves it: \<^verbatim>\<open>num_edges_ + 1\<close>
  elements, the last one the sentinel whose only field is \<^verbatim>\<open>child = 1\<close>, and a size in
  bytes that fits the 32-bit count \<^verbatim>\<open>load\<close> compares with (every array whose indices fit
  the 22 bits of \<^verbatim>\<open>child\<close> does).
\<close>

definition well_formed :: "DAWG \<Rightarrow> bool" where
  "well_formed g \<longleftrightarrow>
     (case d_edges g of
        None \<Rightarrow> False
      | Some (len, f) \<Rightarrow> len = unat (d_num_edges g) + 1
          \<and> f (unat (d_num_edges g)) = set_child 1 0
          \<and> 4 * unat (d_num_edges g) < 2 ^ 32)"

definition istream_of :: "8 word list \<Rightarrow> istream" where
  "istream_of bs = \<lparr>in_bytes = bs, in_good = True\<rparr>"

text \<open>
  The word on the stack: the letters of the current (last appended) edges of the
  levels 0 to \<^verbatim>\<open>stack_pos_\<close>. After a successful \<^verbatim>\<open>add_word(p)\<close> on a fresh \<^verbatim>\<open>Creator\<close> the
  stack spells \<open>p\<close> (lemma \<open>add_word_started_spells\<close>). \<open>precedes_at i w p\<close>: the words
  agree before position \<open>i\<close>, and there the character of \<open>w\<close> (the terminating
  \<^verbatim>\<open>'\0'\<close> when \<open>w\<close> ends at \<open>i\<close>) is less than that of \<open>p\<close>, compared as \<^verbatim>\<open>char\<close>.
\<close>

definition cur_letter :: "Creator \<Rightarrow> Index \<Rightarrow> fault + cchar" where
  "cur_letter c i =
     bindF (get_cur_edge c i) (\<lambda>p. bindF (rd (edge_stack c) p) (\<lambda>e. Inr (letter e)))"

definition stack_spells :: "Creator \<Rightarrow> cchar list \<Rightarrow> bool" where
  "stack_spells c p \<longleftrightarrow>
     length p = unat (stack_pos c) + 1 \<and> (\<forall>i < length p. cur_letter c (of_nat i) = Inr (p ! i))"

definition precedes_at :: "nat \<Rightarrow> cchar list \<Rightarrow> cchar list \<Rightarrow> bool" where
  "precedes_at i w p \<longleftrightarrow>
     i < length p \<and> i \<le> length w \<and> take i w = take i p
     \<and> sint (char_at w (of_nat i)) < sint (p ! i)"

text \<open>The state after \<^verbatim>\<open>start\<close> and \<^verbatim>\<open>add_word("ab")\<close>.\<close>

definition after_ab :: Creator where
  "after_ab = \<lparr>num_edges = 257, edges = Some (1000002, \<lambda>_. 0),
     hash_table = Some (1000003, \<lambda>_. 0),
     edge_stack = Some (8192, (\<lambda>_. 0)(0 := 0x61, 256 := 0x162)),
     num_edges_stack = Some (32, (\<lambda>_. 0)(0 := 1, 1 := 1)),
     stack_pos = 1, error = None, committed = []\<rparr>"

text \<open>
  The slots that \<^verbatim>\<open>find_hash_index\<close> visits: the \<open>k\<close>-th index of the probe sequence
  that starts at \<open>idx\<close> with the given step.
\<close>

fun probe_path :: "Index \<Rightarrow> Index \<Rightarrow> nat \<Rightarrow> Index" where
  "probe_path idx step 0 = idx"
| "probe_path idx step (Suc k) =
     probe_path (fst (next_probe (idx, step))) (snd (next_probe (idx, step))) k"

text \<open>
  The committed nodes. \<open>run E (s, n)\<close> is the edge sequence (full 32-bit words) of
  the run of \<open>n\<close> edges at index \<open>s\<close> of the edge array \<open>E\<close>; \<open>node_words d (s, n)\<close> is
  the same run read from the edge array of a \<^verbatim>\<open>DAWG\<close>.
\<close>

definition run :: "(nat \<Rightarrow> Edge) \<Rightarrow> nat \<times> nat \<Rightarrow> Edge list" where
  "run E sn = map E [fst sn ..< fst sn + snd sn]"

definition node_words :: "DAWG \<Rightarrow> nat \<times> nat \<Rightarrow> Edge list" where
  "node_words d sn =
     (case d_edges d of None \<Rightarrow> [] | Some (len, f) \<Rightarrow> map f [fst sn ..< fst sn + snd sn])"

text \<open>
  \<open>located T ws s\<close>: the probe sequence of the node \<open>ws\<close> reaches, through occupied
  slots of the hash table \<open>T\<close> only, a slot that holds the index \<open>s\<close>.
\<close>

definition located :: "(nat \<Rightarrow> Index) \<Rightarrow> Edge list \<Rightarrow> nat \<Rightarrow> bool" where
  "located T ws s \<longleftrightarrow>
     (\<exists>k. (\<forall>j\<le>k. unat (probe_path (compute_hash ws mod HASH_TABLE_SIZE) 9 j) < unat HASH_TABLE_SIZE
                  \<and> T (unat (probe_path (compute_hash ws mod HASH_TABLE_SIZE) 9 j)) \<noteq> 0)
        \<and> T (unat (probe_path (compute_hash ws mod HASH_TABLE_SIZE) 9 k)) = of_nat s)"

text \<open>
  The invariant of a started \<^verbatim>\<open>Creator\<close>: the three buffers have the sizes \<^verbatim>\<open>start\<close>
  gave them, \<^verbatim>\<open>num_edges_\<close> is within the edge array, every committed run lies after
  the root node and below \<^verbatim>\<open>num_edges_\<close> and is located by the hash table, and no two
  committed runs hold the same edge sequence.
\<close>

definition canonical :: "Creator \<Rightarrow> bool" where
  "canonical c \<longleftrightarrow>
     (\<exists>E T S. edges c = Some (unat MAX_EDGES, E)
        \<and> hash_table c = Some (unat HASH_TABLE_SIZE, T)
        \<and> edge_stack c = Some (8192, S)
        \<and> 257 \<le> unat (num_edges c) \<and> unat (num_edges c) \<le> unat MAX_EDGES
        \<and> (\<forall>sn \<in> set (committed c). 257 \<le> fst sn \<and> fst sn + snd sn \<le> unat (num_edges c)
               \<and> located T (run E sn) (fst sn))
        \<and> distinct (map (run E) (committed c)))"

text \<open>
  The states of a \<^verbatim>\<open>Creator\<close> between \<^verbatim>\<open>start\<close> and \<^verbatim>\<open>finish\<close>: the state that \<^verbatim>\<open>start\<close>
  returns, and every state that a returning \<^verbatim>\<open>add_word\<close> leaves (whatever its status).
\<close>

inductive building :: "Creator \<Rightarrow> bool" where
  started: "start c0 = Inr (ok, c) \<Longrightarrow> building c"
| added: "building c \<Longrightarrow> add_word c w = Some (Inr (ok, c')) \<Longrightarrow> building c'"



section \<open>Basic facts\<close>

lemmas const_defs = HASH_TABLE_SIZE_def MAX_EDGES_def MAX_CHARS_def MAX_WORD_LENGTH_def

lemmas mask_defs =
  MASK_LETTER_def MASK_END_OF_WORD_def MASK_END_OF_NODE_def MASK_CHILD_def SHIFT_CHILD_def

lemmas edge_defs = mask_defs
  letter_def end_of_word_def end_of_node_def child_def
  set_letter_def set_end_of_word_def set_end_of_node_def set_child_def

lemmas mem_defs = new_array_def rd_def wr_def memset0_def memcpy_def bindF_def modify_def is_null_def

declare read_edges.simps [simp del] copy_node.simps [simp del] first_diff.simps [simp del]
  finish_nodes.simps [simp del] append_letters.simps [simp del] copy_root.simps [simp del]
  find_edge.simps [simp del]

lemma unat_minus_1_Index: "unat (- 1 :: Index) = 4294967295"
  by (simp add: unsigned_minus_1_eq_mask mask_eq_exp_minus_1)

lemma start_new: "start Creator_new = Inr (True, started)"
  by (simp add: start_def Creator_new_def started_def const_defs mem_defs)

subsection \<open>The loop that copies the root node\<close>

lemma unat_succ_lt: "unat (i :: Index) < 256 \<Longrightarrow> unat (i + 1) = unat i + 1" and
  unat_succ_lt': "unat (i :: Index) < 256 \<Longrightarrow> unat (1 + i) = unat i + 1"
proof -
  assume a: "unat i < 256"
  then have "unat i + unat (1 :: Index) < 2 ^ LENGTH(32)" by simp
  then have "unat (i + 1) = unat i + unat (1 :: Index)"
    by (simp only: unat_add_lem [THEN iffD1])
  then show "unat (i + 1) = unat i + 1" by simp
  then show "unat (1 + i) = unat i + 1" by (simp add: add.commute)
qed

lemma copy_root_from:
  "unat i \<le> 256 \<Longrightarrow> edges c = Some (n, f) \<Longrightarrow> edge_stack c = Some (m, g) \<Longrightarrow> 256 < n \<Longrightarrow> 256 \<le> m
   \<Longrightarrow> copy_root c i = Inr (c\<lparr>edges := Some (n, \<lambda>k. if unat i < k \<and> k \<le> 256 then g (k - 1) else f k)\<rparr>)"
proof (induction c i arbitrary: f rule: copy_root.induct)
  case (1 c i)
  show ?case
  proof (cases "i < MAX_CHARS")
    case True
    then have lt: "unat i < 256"
      by (simp add: word_less_nat_alt MAX_CHARS_def)
    have ge: "get_edge 0 i = unat i"
      by (simp add: get_edge_def)
    let ?c = "c\<lparr>edges := Some (n, f(unat i + 1 := g (unat i)))\<rparr>"
    have r: "rd (edge_stack c) (get_edge 0 i) = Inr (g (unat i))"
      using lt "1.prems" by (simp add: rd_def ge)
    have w: "wr (edges c) (unat (1 + i)) (g (unat i)) = Inr (Some (n, f(unat i + 1 := g (unat i))))"
      using lt "1.prems" by (simp add: wr_def unat_succ_lt')
    have step: "copy_root c i = copy_root ?c (i + 1)"
      using True by (subst copy_root.simps) (simp add: r w)
    have "unat (i + 1) \<le> 256"
      using lt by (simp add: unat_succ_lt)
    then have "copy_root ?c (i + 1) = Inr (?c\<lparr>edges := Some (n, \<lambda>k. if unat (i + 1) < k \<and> k \<le> 256
             then g (k - 1) else (f(unat i + 1 := g (unat i))) k)\<rparr>)"
      using "1.prems"
      by (intro "1.IH" [OF True r w]) (simp_all add: fun_eq_iff)
    moreover have "(\<lambda>k. if unat (i + 1) < k \<and> k \<le> 256
             then g (k - 1) else (f(unat i + 1 := g (unat i))) k)
        = (\<lambda>k. if unat i < k \<and> k \<le> 256 then g (k - 1) else f k)"
      using lt by (auto simp: fun_eq_iff unat_succ_lt)
    ultimately show ?thesis
      using step by simp
  next
    case False
    then have "unat i = 256"
      using "1.prems"(1) by (simp add: word_less_nat_alt MAX_CHARS_def)
    moreover have "(\<lambda>k. if (256 :: nat) < k \<and> k \<le> 256 then g (k - 1) else f k) = f"
      by (auto simp: fun_eq_iff)
    moreover have "c\<lparr>edges := Some (n, f)\<rparr> = c"
      using "1.prems"(2) by (metis Creator.surjective Creator.update_convs(2))
    ultimately show ?thesis
      using False by (subst copy_root.simps) simp
  qed
qed

lemma copy_root_eq:
  "edges c = Some (n, f) \<Longrightarrow> edge_stack c = Some (m, g) \<Longrightarrow> 256 < n \<Longrightarrow> 256 \<le> m
   \<Longrightarrow> copy_root c 0 = Inr (c\<lparr>edges := Some (n, \<lambda>k. if 0 < k \<and> k \<le> 256 then g (k - 1) else f k)\<rparr>)"
  using copy_root_from [of 0 c n f m g] by simp



subsection \<open>finish_node leaves the stack position alone\<close>

lemma copy_node_stack_pos: "copy_node c idx pos i = Inr c' \<Longrightarrow> stack_pos c' = stack_pos c"
proof (induction c idx pos i rule: copy_node.induct)
  case (1 c idx pos i)
  from "1.prems" obtain n where n: "rd (num_edges_stack c) (unat pos) = Inr n"
    by (subst (asm) copy_node.simps) (auto split: sum.splits)
  show ?case
  proof (cases "i < n")
    case False
    with "1.prems" n show ?thesis
      by (subst (asm) copy_node.simps) simp
  next
    case True
    with "1.prems" n obtain e es where e: "rd (edge_stack c) (get_edge pos i) = Inr e"
      and es: "wr (edges c) (unat (idx + i)) e = Inr es"
      and rec: "copy_node (c\<lparr>edges := es\<rparr>) idx pos (i + 1) = Inr c'"
      by (subst (asm) copy_node.simps) (auto split: sum.splits)
    from "1.IH" [OF n True e es rec] show ?thesis
      by simp
  qed
qed

lemma commit_node_stack_pos:
  "commit_node c pos h = Inr (ok, idx, c') \<Longrightarrow> stack_pos c' = stack_pos c"
  by (auto simp: commit_node_def bindF_def split: sum.splits if_splits dest: copy_node_stack_pos)

lemma finish_node_tail_stack_pos:
  "finish_node_tail c pos h = Inr (ok, c') \<Longrightarrow> stack_pos c' = stack_pos c"
  by (auto simp: finish_node_tail_def bindF_def split: sum.splits if_splits prod.splits
        dest: commit_node_stack_pos)

lemma finish_node_stack_pos:
  "finish_node c pos = Some (Inr (ok, c')) \<Longrightarrow> stack_pos c' = stack_pos c"
  by (auto simp: finish_node_def bindF_def split: sum.splits option.splits
        dest: finish_node_tail_stack_pos)



text \<open>Unfolding the model on concrete inputs.\<close>

lemmas eval_defs = add_word_def rewind_def get_cur_edge_def get_edge_def char_at_def
  const_defs mem_defs edge_defs finish_node_def finish_node_tail_def commit_node_def
  find_hash_index_def compute_hash_def next_probe_def finish_def load_mem_def DAWG_new_def
  DAWG_clear_def Creator_clear_def contains_word_def iter_next_def
  append_letters.simps first_diff.simps finish_nodes.simps copy_node.simps read_edges.simps
  find_edge.simps probe.simps copy_root_eq unat_minus_1_Index
  word_le_nat_alt word_less_nat_alt

lemmas build_defs = contains_def build_def start_def Creator_new_def



section \<open>Edge: the packed fields\<close>

lemma MASK_LETTER_mask: "MASK_LETTER = mask 8"
  by (simp add: MASK_LETTER_def mask_eq_decr_exp)

lemma MASK_CHILD_mask: "MASK_CHILD = NOT (mask 10)"
  by (simp add: MASK_CHILD_def mask_eq_decr_exp)

lemma MASK_END_OF_WORD_exp: "MASK_END_OF_WORD = 2 ^ 8"
  by (simp add: MASK_END_OF_WORD_def)

lemma MASK_END_OF_NODE_exp: "MASK_END_OF_NODE = 2 ^ 9"
  by (simp add: MASK_END_OF_NODE_def)

lemma bit_256: "bit (256 :: int) n \<longleftrightarrow> n = 8"
  using bit_exp_iff [where ?'a = int, of 8 n] by auto

lemma bit_512: "bit (512 :: int) n \<longleftrightarrow> n = 9"
  using bit_exp_iff [where ?'a = int, of 9 n] by auto

lemma end_of_word_bit: "end_of_word e = bit e 8"
  using and_exp_eq_0_iff_not_bit [of e 8] by (simp add: end_of_word_def MASK_END_OF_WORD_def)

lemma end_of_node_bit: "end_of_node e = bit e 9"
  using and_exp_eq_0_iff_not_bit [of e 9] by (simp add: end_of_node_def MASK_END_OF_NODE_def)

lemma bit_letter: "bit (letter e) n = (n < 8 \<and> bit e n)"
  by (auto simp: letter_def MASK_LETTER_mask bit_simps)

lemma bit_child: "bit (child e) n = (n < 22 \<and> bit e (n + 10))"
  by (auto simp: child_def MASK_CHILD_mask SHIFT_CHILD_def bit_simps add.commute dest: bit_imp_le_length)

lemma bit_set_letter:
  "bit (set_letter c e) n = (n < 32 \<and> ((8 \<le> n \<and> bit e n) \<or> bit c (min 7 n)))"
  by (auto simp: set_letter_def MASK_LETTER_mask bit_simps dest: bit_imp_le_length)

lemma bit_set_end_of_word:
  "bit (set_end_of_word v e) n = (if n = 8 then v else bit e n)"
  by (auto simp: set_end_of_word_def MASK_END_OF_WORD_def bit_simps bit_256 dest: bit_imp_le_length)

lemma bit_set_end_of_node:
  "bit (set_end_of_node v e) n = (if n = 9 then v else bit e n)"
  by (auto simp: set_end_of_node_def MASK_END_OF_NODE_def bit_simps bit_512 dest: bit_imp_le_length)

lemma bit_set_child:
  "bit (set_child k e) n = (n < 32 \<and> (if n < 10 then bit e n else bit k (n - 10)))"
  by (auto simp: set_child_def MASK_CHILD_mask SHIFT_CHILD_def bit_simps dest: bit_imp_le_length)

lemma not_bit_7: "c < 0x80 \<Longrightarrow> \<not> bit (c :: 8 word) 7"
proof
  assume "c < 0x80" and b: "bit c 7"
  then have "c AND mask 7 = c"
    using less_mask_eq [of c 7] by simp
  then have "bit (c AND mask 7) 7"
    using b by simp
  then show False
    by (simp add: bit_simps)
qed

text \<open>
  For a character without the sign bit (0x00 to 0x7F) the setter keeps the other
  three fields.
\<close>

lemma set_letter_frame_ascii:
  "c < 0x80 \<Longrightarrow> letter (set_letter c e) = c \<and> child (set_letter c e) = child e
   \<and> end_of_word (set_letter c e) = end_of_word e \<and> end_of_node (set_letter c e) = end_of_node e"
  by (auto intro!: bit_word_eqI simp: bit_letter bit_child bit_set_letter end_of_word_bit end_of_node_bit not_bit_7
      dest: bit_imp_le_length)

lemma letter_set_letter [simp]: "letter (set_letter c e) = c"
  by (auto intro!: bit_word_eqI simp: bit_letter bit_set_letter dest: bit_imp_le_length)

lemma letter_set_others [simp]: "letter (set_child k e) = letter e" "letter (set_end_of_word v e) = letter e"
   "letter (set_end_of_node v e) = letter e"
  by (auto intro!: bit_word_eqI simp: bit_letter bit_set_child bit_set_end_of_word bit_set_end_of_node dest: bit_imp_le_length)


text \<open>
  C10. The claim: for every edge and every \<^verbatim>\<open>char\<close>, bytes 0x80 to 0xFF included,
  \<^verbatim>\<open>letter(c)\<close> changes bits 0 to 7 only, so that \<^verbatim>\<open>end_of_word()\<close>, \<^verbatim>\<open>end_of_node()\<close> and
  \<^verbatim>\<open>child()\<close> return what they returned before. The code at the default-constructed
  edge (\<^verbatim>\<open>data_ = 0\<close>) and \<^verbatim>\<open>c = (char)0x80\<close>: the promoted \<^verbatim>\<open>c\<close> is \<^verbatim>\<open>0xFFFFFF80\<close>, the
  letter read back is \<^verbatim>\<open>c\<close>, but both flags turn from false to true and the child index
  from 0 to \<^verbatim>\<open>0x3FFFFF\<close>.
\<close>

theorem set_letter_high_bit_overwrites_fields:
  "set_letter 0x80 0 = 0xFFFFFF80
   \<and> letter (set_letter 0x80 0) = 0x80
   \<and> \<not> end_of_word 0 \<and> end_of_word (set_letter 0x80 0)
   \<and> \<not> end_of_node 0 \<and> end_of_node (set_letter 0x80 0)
   \<and> child 0 = 0 \<and> child (set_letter 0x80 0) = 0x3FFFFF"
  by (simp add: edge_defs)


section \<open>The builder on small inputs\<close>

text \<open>
  C1. The claim: for every sequence of words of length 1 to 31 fed in strictly
  ascending byte-wise order, the graph returned by \<^verbatim>\<open>finish\<close> contains exactly the
  words fed. The code on the sequence \<^verbatim>\<open>"a"\<close>, \<^verbatim>\<open>"ab"\<close>: every call succeeds, the graph
  contains \<^verbatim>\<open>"a"\<close>, and \<^verbatim>\<open>contains_word("ab")\<close> returns false. After a word of length 1
  \<^verbatim>\<open>stack_pos_\<close> is 0, which \<^verbatim>\<open>add_word\<close> takes for an empty stack (line 262): the
  comparison with the previous word is skipped and a second edge \<^verbatim>\<open>'a'\<close> is appended
  to the root node; \<^verbatim>\<open>find_edge\<close> stops at the first.
\<close>

theorem build_a_ab_misses_ab:
  "contains [[0x61], [0x61, 0x62]] [0x61, 0x62] = Some (Inr False)
   \<and> contains [[0x61], [0x61, 0x62]] [0x61] = Some (Inr True)"
  by (simp add: build_defs eval_defs)

text \<open>
  C6. The claim: \<^verbatim>\<open>finish\<close> on a started \<^verbatim>\<open>Creator\<close> with no word added succeeds, and
  the graph contains no word. The code: \<^verbatim>\<open>num_edges_stack_[0]\<close> is 0, so
  \<^verbatim>\<open>get_cur_edge(0)\<close> (line 331) is \<^verbatim>\<open>edge_stack_ + 0xFFFFFFFF\<close>, and setting
  \<^verbatim>\<open>end_of_node\<close> there is an access outside the 8192 edges of \<^verbatim>\<open>edge_stack_\<close>.
\<close>

theorem finish_without_words_faults:
  "start Creator_new = Inr (True, started)
   \<and> get_cur_edge started 0 = Inr 4294967295
   \<and> edge_stack started = Some (8192, \<lambda>_. 0)
   \<and> finish started = Some (Inl InvalidAccess)
   \<and> build [] = Some (Inl InvalidAccess)"
  by (simp add: start_new build_def) (simp add: started_def eval_defs)

section \<open>Calls on an unstarted Creator\<close>

text \<open>
  C9, as amended. The claim was that \<^verbatim>\<open>add_word\<close> and \<^verbatim>\<open>finish\<close> on a \<^verbatim>\<open>Creator\<close> whose
  buffers are not allocated return a \<^verbatim>\<open>NotStarted\<close> error as an ordinary failure. The
  code has no such error: both functions open with four assertions that the buffers
  are not \<^verbatim>\<open>NULL\<close>. On every unstarted \<^verbatim>\<open>Creator\<close>, whatever the word, the call stops at
  a failed assertion and returns nothing to its caller.
\<close>

theorem unstarted_calls_fail_assertion:
  "unstarted c \<Longrightarrow> add_word c w = Some (Inl AssertionFailure) \<and> finish c = Some (Inl AssertionFailure)"
  by (simp add: unstarted_def add_word_def finish_def)

theorem unstarted_calls_fail_assertion_witness:
  "unstarted (Creator_clear started)
   \<and> add_word (Creator_clear started) [0x61] = Some (Inl AssertionFailure)
   \<and> finish (Creator_clear started) = Some (Inl AssertionFailure)"
proof -
  have u: "unstarted (Creator_clear started)"
    by (simp add: unstarted_def Creator_clear_def is_null_def)
  show ?thesis
    using u unstarted_calls_fail_assertion [OF u, of "[0x61]"] by simp
qed

text \<open>
  The claim fails on a new \<^verbatim>\<open>Creator\<close>: neither call returns \<^verbatim>\<open>FAILURE\<close> (or \<^verbatim>\<open>NULL\<close>).
\<close>

theorem new_creator_returns_no_failure:
  "\<not> returned_failure (add_word Creator_new [0x61]) \<and> \<not> returned_null (finish Creator_new)"
  by (simp add: returned_failure_def returned_null_def add_word_def finish_def
        Creator_new_def is_null_def)


section \<open>The hash of a node\<close>







subsection \<open>What find_hash_index returns with an occupied slot\<close>







text \<open>
  The same two nodes in the builder, with the words \<^verbatim>\<open>pa\<close>, \<^verbatim>\<open>pb\<close>, \<^verbatim>\<open>qc\<close>, \<^verbatim>\<open>qf\<close>: the second
  node hashes to slot 416, which holds the first; the words differ, and
  \<^verbatim>\<open>find_hash_index\<close> goes on to the empty slot 425.
\<close>

lemma find_hash_index_resolves_collision:
  "\<exists>c st. add_words started [[0x70, 0x61], [0x70, 0x62], [0x71, 0x63], [0x71, 0x66]]
        = Some (Inr (True, c))
   \<and> bindF (get_cur_edge c 1) (\<lambda>p. modify (edge_stack c) p (set_end_of_node True)) = Inr st
   \<and> read_edges st (get_edge 1 0) 2 = Inr [0x163, 0x366]
   \<and> compute_hash [0x163, 0x366] mod HASH_TABLE_SIZE = 416
   \<and> rd (hash_table c) 416 = Inr 257
   \<and> rd (edges c) 257 = Inr 0x161 \<and> rd (edges c) 258 = Inr 0x362
   \<and> find_hash_index (c\<lparr>edge_stack := st\<rparr>) (get_edge 1 0) 2 = Some (Inr (Some 425))
   \<and> rd (hash_table c) 425 = Inr 0"
proof -
  define c where "c = snd (projr (the (add_words started
      [[0x70, 0x61], [0x70, 0x62], [0x71, 0x63], [0x71, 0x66]])))"
  define st where "st = projr (bindF (get_cur_edge c 1)
      (\<lambda>p. modify (edge_stack c) p (set_end_of_node True)))"
  have "add_words started [[0x70, 0x61], [0x70, 0x62], [0x71, 0x63], [0x71, 0x66]]
        = Some (Inr (True, c))"
    by (simp add: c_def started_def eval_defs)
  moreover
  have "bindF (get_cur_edge c 1) (\<lambda>p. modify (edge_stack c) p (set_end_of_node True)) = Inr st"
    by (simp add: st_def c_def started_def eval_defs)
  moreover have "read_edges st (get_edge 1 0) 2 = Inr [0x163, 0x366]"
    by (simp add: st_def c_def started_def eval_defs)
  moreover have "compute_hash [0x163, 0x366] mod HASH_TABLE_SIZE = 416"
    by (simp add: eval_defs)
  moreover have "rd (hash_table c) 416 = Inr 257"
    "rd (edges c) 257 = Inr 0x161" "rd (edges c) 258 = Inr 0x362" "rd (hash_table c) 425 = Inr 0"
    by (simp_all add: c_def started_def eval_defs)
  moreover
  have "find_hash_index (c\<lparr>edge_stack := st\<rparr>) (get_edge 1 0) 2 = Some (Inr (Some 425))"
    by (simp add: st_def c_def started_def eval_defs)
  ultimately show ?thesis
    by blast
qed




section \<open>The probe sequence\<close>

text \<open>
  From an index inside the table and a step of at most \<^verbatim>\<open>HASH_TABLE_SIZE\<close>, lines 431 to
  434 give the sum reduced by \<^verbatim>\<open>HASH_TABLE_SIZE\<close> only when it is greater: a sum equal to
  \<^verbatim>\<open>HASH_TABLE_SIZE\<close> stays, one past the last slot.
\<close>

lemma unat_HASH_TABLE_SIZE: "unat HASH_TABLE_SIZE = 1000003"
  by (simp add: HASH_TABLE_SIZE_def)

lemma next_probe_index:
  assumes "unat idx < 1000003" and "unat step \<le> 1000003"
  shows "unat (fst (next_probe (idx, step)))
         = (if 1000003 < unat idx + unat step then unat idx + unat step - 1000003
            else unat idx + unat step)"
proof -
  have "unat idx + unat step < 2 ^ LENGTH(32)"
    using assms by simp
  then have sum: "unat (idx + step) = unat idx + unat step"
    by (simp only: unat_add_lem [THEN iffD1])
  show ?thesis
  proof (cases "HASH_TABLE_SIZE < idx + step")
    case True
    then have "HASH_TABLE_SIZE \<le> idx + step"
      by simp
    then have "unat (idx + step - HASH_TABLE_SIZE) = unat (idx + step) - unat HASH_TABLE_SIZE"
      by (rule unat_sub)
    with True sum show ?thesis
      by (simp add: next_probe_def Let_def word_less_nat_alt unat_HASH_TABLE_SIZE)
  next
    case False
    with sum show ?thesis
      by (simp add: next_probe_def Let_def word_less_nat_alt unat_HASH_TABLE_SIZE)
  qed
qed

lemma next_probe_in_table_or_one_past:
  assumes "unat idx < 1000003" and "unat step \<le> 1000003"
  shows "unat (fst (next_probe (idx, step))) \<le> 1000003"
    and "unat (fst (next_probe (idx, step))) = 1000003 \<longleftrightarrow> unat idx + unat step = 1000003"
  using assms by (auto simp: next_probe_index)

text \<open>
  C7. The claim: every probe index after the first is \<^verbatim>\<open>(idx + step) mod HASH_TABLE_SIZE\<close>
  and so below \<^verbatim>\<open>HASH_TABLE_SIZE\<close>, and every read of \<^verbatim>\<open>hash_table_[idx]\<close> is within the
  table. The code from index 999994 with step 9: the next index is \<^verbatim>\<open>HASH_TABLE_SIZE\<close>
  itself, where the claim has 0, because line 433 tests \<^verbatim>\<open>idx > HASH_TABLE_SIZE\<close>. The
  two leaf nodes of \<open>colliding_words\<close> both hash to 999994; the first is committed
  by \<^verbatim>\<open>add_word("b7")\<close>, and when \<^verbatim>\<open>finish\<close> looks up the second, the second probe reads
  \<^verbatim>\<open>hash_table_[1000003]\<close>, outside the table.
\<close>

theorem probe_leaves_hash_table: "next_probe (999994, 9) = (HASH_TABLE_SIZE, 18)
   \<and> (999994 + 9) mod HASH_TABLE_SIZE = 0
   \<and> compute_hash [0x137, 0x161, 0x162, 0x164, 0x165, 0x166, 0x167, 0x168, 0x169, 0x16A, 0x16B, 0x36C] mod HASH_TABLE_SIZE = 999994
   \<and> compute_hash [0x137, 0x161, 0x162, 0x164, 0x165, 0x166, 0x167, 0x169, 0x16A, 0x16B, 0x16C, 0x36E] mod HASH_TABLE_SIZE = 999994
   \<and> rd (hash_table started) (unat HASH_TABLE_SIZE) = Inl InvalidAccess
   \<and> build colliding_words = Some (Inl InvalidAccess)"
  by (simp add: colliding_words_def build_defs eval_defs started_def)



section \<open>The length limit of add_word\<close>

text \<open>Appending the letters of a word to stack levels that hold no edge yet.\<close>

lemma unat_of_nat_small: "n < 32 \<Longrightarrow> unat (of_nat n :: Index) = n"
  by (simp add: unat_of_nat)

lemma unat_Suc_small: "unat (i :: Index) < 32 \<Longrightarrow> unat (i + 1) = unat i + 1"
  by (simp add: unat_succ_lt)

lemma get_edge_first: "unat (sp :: Index) < 32 \<Longrightarrow> get_edge sp 0 = 256 * unat sp"
proof -
  assume a: "unat sp < 32"
  then have "unat sp * unat (256 :: Index) < 2 ^ LENGTH(32)"
    by simp
  then have "unat (sp * 256) = unat sp * unat (256 :: Index)"
    by (simp only: unat_mult_lem [THEN iffD1])
  then show ?thesis
    by (simp add: get_edge_def MAX_CHARS_def)
qed

lemma append_letters_fresh:
  assumes "num_edges_stack c = Some (32, K)" and "edge_stack c = Some (8192, S)"
    and "length w < 32" and "unat (stack_pos c) \<le> length w"
    and "\<forall>d. unat (stack_pos c) \<le> d \<and> d < length w \<longrightarrow> K d = 0"
  shows "\<exists>c' K' S'. append_letters c w = Inr c' \<and> stack_pos c' = of_nat (length w)
           \<and> num_edges_stack c' = Some (32, K') \<and> edge_stack c' = Some (8192, S')
           \<and> (\<forall>d. unat (stack_pos c) \<le> d \<and> d < length w \<longrightarrow> K' d = 1)
           \<and> (\<forall>d. d < unat (stack_pos c) \<longrightarrow> K' d = K d)
           \<and> (\<forall>d. unat (stack_pos c) \<le> d \<and> d < length w \<longrightarrow> letter (S' (256 * d)) = w ! d)
           \<and> (\<forall>j. j < 256 * unat (stack_pos c) \<longrightarrow> S' j = S j)
           \<and> hash_table c' = hash_table c \<and> edges c' = edges c"
  using assms
proof (induction c w arbitrary: K S rule: append_letters.induct)
  case (1 c word)
  let ?p = "unat (stack_pos c)"
  have len: "unat (of_nat (length word) :: Index) = length word"
    using "1.prems"(3) by (simp add: unat_of_nat_small)
  show ?case
  proof (cases "stack_pos c < of_nat (length word)")
    case False
    then have "?p = length word"
      using "1.prems"(4) len by (simp add: word_less_nat_alt)
    then have "stack_pos c = of_nat (length word)"
      by (simp add: word_unat_eq_iff len)
    with False "1.prems" len show ?thesis
      by (subst append_letters.simps) auto
  next
    case True
    then have lt: "?p < length word"
      using len by (simp add: word_less_nat_alt)
    then have p32: "?p < 32"
      using "1.prems"(3) by simp
    have K0: "K ?p = 0"
      using "1.prems"(5) lt by simp
    let ?K = "K(?p := 1)"
    let ?i = "256 * ?p"
    let ?S = "S(?i := set_letter (char_at word (stack_pos c)) (S ?i))"
    have m1: "modify (num_edges_stack c) ?p (\<lambda>n. n + 1) = Inr (Some (32, ?K))"
      using "1.prems"(1) p32 K0 by (simp add: modify_def bindF_def rd_def wr_def)
    have g: "get_cur_edge (c\<lparr>num_edges_stack := Some (32, ?K)\<rparr>) (stack_pos c) = Inr ?i"
      using p32 by (simp add: get_cur_edge_def bindF_def rd_def get_edge_first)
    have m2: "modify (edge_stack c) ?i (set_letter (char_at word (stack_pos c))) = Inr (Some (8192, ?S))"
      using "1.prems"(2) p32 by (simp add: modify_def bindF_def rd_def wr_def)
    let ?c = "c\<lparr>num_edges_stack := Some (32, ?K), edge_stack := Some (8192, ?S),
                  stack_pos := stack_pos c + 1\<rparr>"
    have step: "append_letters c word = append_letters ?c word"
      using True by (subst append_letters.simps) (simp add: m1 g m2)
    have sp: "unat (stack_pos ?c) = ?p + 1"
      using p32 by (simp add: unat_Suc_small)
    have "\<exists>c' K' S'. append_letters ?c word = Inr c' \<and> stack_pos c' = of_nat (length word)
           \<and> num_edges_stack c' = Some (32, K') \<and> edge_stack c' = Some (8192, S')
           \<and> (\<forall>d. unat (stack_pos ?c) \<le> d \<and> d < length word \<longrightarrow> K' d = 1)
           \<and> (\<forall>d. d < unat (stack_pos ?c) \<longrightarrow> K' d = ?K d)
           \<and> (\<forall>d. unat (stack_pos ?c) \<le> d \<and> d < length word \<longrightarrow> letter (S' (256 * d)) = word ! d)
           \<and> (\<forall>j. j < 256 * unat (stack_pos ?c) \<longrightarrow> S' j = ?S j)
           \<and> hash_table c' = hash_table ?c \<and> edges c' = edges ?c"
    proof (rule "1.IH" [OF True m1 g m2])
      show "num_edges_stack ?c = Some (32, ?K)" by simp
      show "edge_stack ?c = Some (8192, ?S)" by simp
      show "length word < 32" by (rule "1.prems"(3))
      show "unat (stack_pos ?c) \<le> length word" using sp lt by simp
      show "\<forall>d. unat (stack_pos ?c) \<le> d \<and> d < length word \<longrightarrow> ?K d = 0"
        using sp "1.prems"(5) by auto
    qed
    then obtain c' K' S' where r: "append_letters ?c word = Inr c'"
      "stack_pos c' = of_nat (length word)" "num_edges_stack c' = Some (32, K')"
      "edge_stack c' = Some (8192, S')"
      "\<forall>d. unat (stack_pos ?c) \<le> d \<and> d < length word \<longrightarrow> K' d = 1"
      "hash_table c' = hash_table ?c" "edges c' = edges ?c"
      "\<forall>d. d < unat (stack_pos ?c) \<longrightarrow> K' d = ?K d"
      "\<forall>d. unat (stack_pos ?c) \<le> d \<and> d < length word \<longrightarrow> letter (S' (256 * d)) = word ! d"
      "\<forall>j. j < 256 * unat (stack_pos ?c) \<longrightarrow> S' j = ?S j"
      by blast
    show ?thesis
    proof (intro exI conjI)
      show "append_letters c word = Inr c'" using step r(1) by simp
      show "stack_pos c' = of_nat (length word)" by (rule r(2))
      show "num_edges_stack c' = Some (32, K')" by (rule r(3))
      show "edge_stack c' = Some (8192, S')" by (rule r(4))
      show "hash_table c' = hash_table c" using r(6) by simp
      show "edges c' = edges c" using r(7) by simp
      show "\<forall>d. ?p \<le> d \<and> d < length word \<longrightarrow> K' d = 1"
      proof (intro allI impI)
        fix d assume d: "?p \<le> d \<and> d < length word"
        show "K' d = 1"
        proof (cases "d = ?p")
          case True
          then show ?thesis using r(8) sp by simp
        next
          case False
          then show ?thesis using r(5) sp d by simp
        qed
      qed
      show "\<forall>d. d < ?p \<longrightarrow> K' d = K d"
        using r(8) sp by simp
      show "\<forall>j. j < 256 * ?p \<longrightarrow> S' j = S j"
        using r(10) sp by simp
      show "\<forall>d. ?p \<le> d \<and> d < length word \<longrightarrow> letter (S' (256 * d)) = word ! d"
      proof (intro allI impI)
        fix d assume d: "?p \<le> d \<and> d < length word"
        show "letter (S' (256 * d)) = word ! d"
        proof (cases "d = ?p")
          case True
          have "S' (256 * ?p) = ?S (256 * ?p)"
            using r(10) sp by simp
          then show ?thesis
            using True lt by (simp add: char_at_def)
        next
          case False
          then show ?thesis using r(9) sp d by simp
        qed
      qed
    qed
  qed
qed



lemma unat_of_nat_Index: "n < 2 ^ 32 \<Longrightarrow> unat (of_nat n :: Index) = n"
  by (simp add: unat_of_nat)

lemma add_word_started_spells:
  assumes "1 \<le> length v" and "length v < 32"
  shows "\<exists>c'. add_word started v = Some (Inr (True, c')) \<and> stack_spells c' v \<and> \<not> unstarted c'"
proof -
  let ?n = "length v"
  have "\<exists>c' K' S'. append_letters started v = Inr c' \<and> stack_pos c' = of_nat (length v)
           \<and> num_edges_stack c' = Some (32, K') \<and> edge_stack c' = Some (8192, S')
           \<and> (\<forall>d. unat (stack_pos started) \<le> d \<and> d < length v \<longrightarrow> K' d = 1)
           \<and> (\<forall>d. d < unat (stack_pos started) \<longrightarrow> K' d = (\<lambda>_. 0) d)
           \<and> (\<forall>d. unat (stack_pos started) \<le> d \<and> d < length v \<longrightarrow> letter (S' (256 * d)) = v ! d)
           \<and> (\<forall>j. j < 256 * unat (stack_pos started) \<longrightarrow> S' j = (\<lambda>_. 0) j)
           \<and> hash_table c' = hash_table started \<and> edges c' = edges started"
    using assms by (intro append_letters_fresh) (simp_all add: started_def)
  then obtain c' K' S' where r: "append_letters started v = Inr c'" "stack_pos c' = of_nat ?n"
    "num_edges_stack c' = Some (32, K')" "edge_stack c' = Some (8192, S')"
    and K: "\<forall>d < ?n. K' d = 1" and L: "\<forall>d < ?n. letter (S' (256 * d)) = v ! d"
    and rest: "hash_table c' = hash_table started" "edges c' = edges started"
    by (auto simp: started_def)
  have rw: "rewind started v = Some (Inr (True, started))"
    by (simp add: rewind_def started_def)
  have "(1 :: Index) \<le> of_nat ?n"
    using assms by (simp add: word_le_nat_alt unat_of_nat_Index)
  then have "unat (of_nat ?n - 1 :: Index) = unat (of_nat ?n :: Index) - unat (1 :: Index)"
    by (rule unat_sub)
  then have un: "unat (of_nat ?n - 1 :: Index) = ?n - 1"
    using assms by (simp add: unat_of_nat_Index)
  let ?top = "256 * (?n - 1)"
  have g: "get_cur_edge c' (stack_pos c' - 1) = Inr ?top"
    using r K assms un by (simp add: get_cur_edge_def bindF_def rd_def get_edge_first)
  let ?st = "Some (8192, S'(?top := set_end_of_word True (S' ?top)))"
  have m: "modify (edge_stack c') ?top (set_end_of_word True) = Inr ?st"
    using r assms by (simp add: modify_def bindF_def rd_def wr_def)
  let ?c = "c'\<lparr>stack_pos := stack_pos c' - 1, edge_stack := ?st\<rparr>"
  have nu: "\<not> unstarted started"
    by (simp add: unstarted_def started_def is_null_def)
  have aw: "add_word started v = Some (Inr (True, ?c))"
    using nu assms rw r(1) g m
    by (simp add: add_word_def unstarted_def MAX_WORD_LENGTH_def bindF_def)
  have nu': "\<not> unstarted ?c"
    using r rest by (simp add: unstarted_def started_def is_null_def)
  have "cur_letter ?c (of_nat i) = Inr (v ! i)" if "i < ?n" for i
  proof -
    have ui: "unat (of_nat i :: Index) = i"
      using that assms by (simp add: unat_of_nat_Index)
    have "get_cur_edge ?c (of_nat i) = Inr (256 * i)"
      using r K that assms ui by (simp add: get_cur_edge_def bindF_def rd_def get_edge_first)
    moreover have "letter ((S'(?top := set_end_of_word True (S' ?top))) (256 * i)) = v ! i"
      using L that by simp
    ultimately show ?thesis
      using that assms by (simp add: cur_letter_def bindF_def rd_def)
  qed
  then have "stack_spells ?c v"
    using r assms un by (simp add: stack_spells_def)
  with aw nu' show ?thesis
    by blast
qed

lemma add_word_too_long:
  "\<not> unstarted c \<Longrightarrow> unat MAX_WORD_LENGTH \<le> length w
   \<Longrightarrow> add_word c w = Some (Inr (False, c\<lparr>error := Some WordIsTooLong\<rparr>))"
  by (simp add: add_word_def unstarted_def)

subsection \<open>The failures after the length check\<close>







subsection \<open>A word on an empty stack\<close>









section \<open>Saving and loading\<close>

lemma le_word_4:
  "le_word [b0, b1, b2, b3]
   = ucast b0 OR push_bit 8 (ucast b1) OR push_bit 16 (ucast b2) OR push_bit 24 (ucast b3)"
  unfolding le_word_def
  by (rule bit_word_eqI) (auto simp: bit_simps)

lemma bit_le_word_4:
  "bit (le_word [b0, b1, b2, b3]) n \<longleftrightarrow>
     (if n < 8 then bit b0 n else if n < 16 then bit b1 (n - 8)
      else if n < 24 then bit b2 (n - 16) else n < 32 \<and> bit b3 (n - 24))"
  unfolding le_word_4
  by (auto simp: bit_simps dest: bit_imp_le_length)

lemma le_word_le_bytes: "le_word (le_bytes w) = w"
proof (rule bit_word_eqI)
  fix n
  assume "n < LENGTH(32)"
  then show "bit (le_word (le_bytes w)) n = bit w n"
    unfolding le_bytes_def bit_le_word_4
    by (auto simp: bit_simps)
qed

lemma length_le_bytes [simp]: "length (le_bytes w) = 4"
  by (simp add: le_bytes_def)

lemma words_of_le_bytes: "words_of (le_bytes w @ bs) = w # words_of bs"
  using le_word_le_bytes [of w] by (simp add: le_bytes_def)

lemma words_of_concat: "words_of (concat (map le_bytes es)) = es"
  by (induction es) (simp_all add: words_of_le_bytes)

lemma length_concat_le_bytes: "length (concat (map le_bytes es)) = 4 * length es"
  by (induction es) simp_all

lemma upt_first: "[off ..< Suc (off + n)] = off # [Suc off ..< Suc (off + n)]"
  by (simp add: upt_conv_Cons del: upt_Suc)

lemma read_edges_eq:
  "off + n \<le> len \<Longrightarrow> read_edges (Some (len, f)) off n = Inr (map f [off ..< off + n])"
proof (induction n arbitrary: off)
  case 0
  then show ?case by (subst read_edges.simps) simp
next
  case (Suc n)
  from Suc.prems have "read_edges (Some (len, f)) (off + 1) n = Inr (map f [off + 1 ..< off + 1 + n])"
    by (intro Suc.IH) simp
  with Suc.prems show ?case
    by (subst read_edges.simps) (simp add: rd_def upt_first del: upt_Suc)
qed

lemma read_edges_Inr:
  "read_edges p off n = Inr es \<Longrightarrow> n = 0 \<and> es = [] \<or> (\<exists>len f. p = Some (len, f) \<and> off + n \<le> len \<and> es = map f [off ..< off + n])"
proof (induction n arbitrary: off es)
  case 0
  then show ?case by (subst (asm) read_edges.simps) simp
next
  case (Suc n)
  from Suc.prems obtain e es' where r: "rd p off = Inr e" and r': "read_edges p (off + 1) n = Inr es'"
    and es: "es = e # es'"
    by (subst (asm) read_edges.simps) (auto split: sum.splits)
  from r obtain len f where p: "p = Some (len, f)" and lt: "off < len" and e: "e = f off"
    by (auto simp: rd_def split: option.splits if_splits)
  from Suc.IH [OF r'] p have "n = 0 \<and> es' = [] \<or> off + 1 + n \<le> len \<and> es' = map f [off + 1 ..< off + 1 + n]"
    by auto
  with p lt e es show ?case
    by (auto simp: upt_first simp del: upt_Suc)
qed

lemma os_write_ok:
  "\<not> out_fail (os_write s bs) \<Longrightarrow> out_bytes (os_write s bs) = out_bytes s @ bs \<and> \<not> out_fail s"
  by (auto simp: os_write_def split: if_splits)


lemma child_sentinel: "child (set_child 1 0) = 1"
  by (simp add: edge_defs)

lemma save_bytes:
  assumes "d_edges g = Some (unat (d_num_edges g) + 1, f)"
    and "out_bytes out = []" and "\<not> out_fail out"
    and "save g out = Inr (True, g', out')"
  shows "out_bytes out' = le_bytes MAGIC_NUMBER @ le_bytes (d_num_edges g)
            @ concat (map le_bytes (map f [0 ..< unat (d_num_edges g)]))"
proof -
  let ?o1 = "os_write out (le_bytes MAGIC_NUMBER)"
  let ?o2 = "os_write ?o1 (le_bytes (d_num_edges g))"
  let ?es = "map f [0 ..< unat (d_num_edges g)]"
  let ?o3 = "os_write ?o2 (concat (map le_bytes ?es))"
  have re: "read_edges (d_edges g) 0 (unat (d_num_edges g)) = Inr ?es"
    using read_edges_eq [of 0 "unat (d_num_edges g)" "unat (d_num_edges g) + 1" f] assms(1)
    by simp
  from assms(3,4) re have ok: "\<not> out_fail ?o1" "\<not> out_fail ?o2" "\<not> out_fail ?o3" and o: "out' = ?o3"
    by (auto simp: save_def Let_def bindF_def split: if_splits)
  have "out_bytes ?o1 = out_bytes out @ le_bytes MAGIC_NUMBER"
    using ok(1) os_write_ok by blast
  moreover have "out_bytes ?o2 = out_bytes ?o1 @ le_bytes (d_num_edges g)"
    using ok(2) os_write_ok by blast
  moreover have "out_bytes ?o3 = out_bytes ?o2 @ concat (map le_bytes ?es)"
    using ok(3) os_write_ok by blast
  ultimately show ?thesis
    unfolding o using assms(2) by simp
qed

lemma load_mem_well_formed:
  assumes "load_mem d n src = Inr (ok, g)" and "4 * unat n < 2 ^ 32"
  shows "well_formed g \<and> d_num_edges g = n"
proof -
  have "unat n + unat (1 :: Index) < 2 ^ LENGTH(32)"
    using assms(2) by simp
  then have "unat (n + 1) = unat n + unat (1 :: Index)"
    by (simp only: unat_add_lem [THEN iffD1])
  then have size: "unat (n + 1) = unat n + 1"
    by simp
  from assms(1) show ?thesis
    using assms(2)
    by (auto simp: load_mem_def Let_def bindF_def new_array_def memcpy_def rd_def wr_def
          DAWG_clear_def well_formed_def size split: option.splits if_splits)
qed

text \<open>
  C3. For every graph with a well-formed edge array: if \<^verbatim>\<open>save\<close> to an empty, good
  stream succeeds, then \<^verbatim>\<open>load\<close> from the bytes written succeeds (on any \<^verbatim>\<open>DAWG\<close> object),
  the loaded \<^verbatim>\<open>num_edges_\<close> is the saved one, and the loaded array agrees with the saved
  one at every index from 0 to \<^verbatim>\<open>num_edges_\<close>; the element at \<^verbatim>\<open>num_edges_\<close> is the
  sentinel, whose child is 1 (lemma \<open>child_sentinel\<close>).
\<close>

theorem save_load_round_trip:
  assumes wf: "well_formed g"
    and out: "out_bytes out = []" "\<not> out_fail out"
    and sv: "save g out = Inr (True, g', out')"
  shows "\<exists>g2 rest. load d (istream_of (out_bytes out')) = Inr (True, g2, rest)
           \<and> d_num_edges g2 = d_num_edges g
           \<and> (\<forall>i \<le> unat (d_num_edges g). rd (d_edges g2) i = rd (d_edges g) i)
           \<and> rd (d_edges g2) (unat (d_num_edges g)) = Inr (set_child 1 0)"
proof -
  let ?n = "d_num_edges g"
  from wf obtain f where g: "d_edges g = Some (unat ?n + 1, f)"
    and sent: "f (unat ?n) = set_child 1 0" and small: "4 * unat ?n < 2 ^ 32"
    by (auto simp: well_formed_def split: option.splits)
  let ?es = "map f [0 ..< unat ?n]"
  let ?body = "concat (map le_bytes ?es)"
  have bytes: "out_bytes out' = le_bytes MAGIC_NUMBER @ le_bytes ?n @ ?body"
    using save_bytes [OF g out sv] .
  have lb: "length ?body = 4 * unat ?n"
    using length_concat_le_bytes [of ?es] by simp
  have "unat ?n + unat (1 :: Index) < 2 ^ LENGTH(32)"
    using small by simp
  then have "unat (?n + 1) = unat ?n + unat (1 :: Index)"
    by (simp only: unat_add_lem [THEN iffD1])
  then have size: "unat (?n + 1) = unat ?n + 1"
    by simp
  let ?f0 = "\<lambda>k. if k < unat ?n then f k else 0"
  let ?f2 = "?f0(unat ?n := set_child 1 0)"
  let ?g2 = "(DAWG_clear d)\<lparr>d_edges := Some (unat ?n + 1, ?f2), d_num_edges := ?n\<rparr>"
  have md: "modify (Some (unat ?n + 1, ?f0)) (unat ?n) (set_child 1) = Inr (Some (unat ?n + 1, ?f2))"
    by (simp add: modify_def bindF_def rd_def wr_def)
  have ld: "load d (istream_of (out_bytes out')) = Inr (True, ?g2, \<lparr>in_bytes = [], in_good = True\<rparr>)"
    unfolding bytes load_def istream_of_def
    using small
    by (simp add: is_read_def Let_def le_word_le_bytes lb size words_of_concat
          modify_def bindF_def rd_def wr_def del: map_map cong: if_cong)
  have "\<forall>i \<le> unat ?n. rd (d_edges ?g2) i = rd (d_edges g) i"
    using g sent by (auto simp: rd_def)
  moreover have "rd (d_edges ?g2) (unat ?n) = Inr (set_child 1 0)"
    by (simp add: rd_def)
  ultimately show ?thesis
    using ld by (intro exI [of _ ?g2] exI [of _ "\<lparr>in_bytes = [], in_good = True\<rparr>"]) simp
qed


theorem save_load_round_trip_witness:
  "well_formed \<lparr>d_num_edges = 2, d_edges = Some (3, (\<lambda>_. 0)(1 := 0x361, 2 := 0x400)), d_error = None\<rparr>
   \<and> save \<lparr>d_num_edges = 2, d_edges = Some (3, (\<lambda>_. 0)(1 := 0x361, 2 := 0x400)), d_error = None\<rparr>
          \<lparr>out_bytes = [], out_room = 64, out_fail = False\<rparr>
       = Inr (True,
           \<lparr>d_num_edges = 2, d_edges = Some (3, (\<lambda>_. 0)(1 := 0x361, 2 := 0x400)), d_error = None\<rparr>,
           \<lparr>out_bytes = [0x31, 0xC2, 0xAC, 0xC6, 2, 0, 0, 0, 0, 0, 0, 0, 0x61, 3, 0, 0],
            out_room = 48, out_fail = False\<rparr>)
   \<and> (case load DAWG_new
              (istream_of [0x31, 0xC2, 0xAC, 0xC6, 2, 0, 0, 0, 0, 0, 0, 0, 0x61, 3, 0, 0]) of
         Inr (ok, g2, rest) \<Rightarrow> ok \<and> d_num_edges g2 = 2 \<and> rd (d_edges g2) 0 = Inr 0
             \<and> rd (d_edges g2) 1 = Inr 0x361 \<and> rd (d_edges g2) 2 = Inr 0x400
       | Inl f \<Rightarrow> False)"
proof -
  let ?g = "\<lparr>d_num_edges = 2, d_edges = Some (3, (\<lambda>_. 0)(1 := 0x361, 2 := 0x400)), d_error = None\<rparr>"
  let ?o = "\<lparr>out_bytes = [], out_room = 64, out_fail = False\<rparr>"
  let ?o' = "\<lparr>out_bytes = [0x31, 0xC2, 0xAC, 0xC6, 2, 0, 0, 0, 0, 0, 0, 0, 0x61, 3, 0, 0],
            out_room = 48, out_fail = False\<rparr>"
  have wf: "well_formed ?g"
    by (simp add: well_formed_def edge_defs)
  have sv: "save ?g ?o = Inr (True, ?g, ?o')"
    by (simp add: save_def os_write_def le_bytes_def MAGIC_NUMBER_def read_edges.simps
          rd_def bindF_def Let_def)
  from save_load_round_trip [OF wf _ _ sv, of DAWG_new]
  obtain g2 rest where
    "load DAWG_new (istream_of (out_bytes ?o')) = Inr (True, g2, rest)"
    "d_num_edges g2 = d_num_edges ?g"
    "\<forall>i \<le> unat (d_num_edges ?g). rd (d_edges g2) i = rd (d_edges ?g) i"
    by auto
  then have "load DAWG_new (istream_of (out_bytes ?o')) = Inr (True, g2, rest)"
    "d_num_edges g2 = 2" "rd (d_edges g2) 0 = Inr 0"
    "rd (d_edges g2) 1 = Inr 0x361" "rd (d_edges g2) 2 = Inr 0x400"
    by (simp_all add: rd_def)
  with wf sv show ?thesis
    by simp
qed




section \<open>The order check of add_word\<close>

lemma first_diff_finds:
  assumes sp: "stack_spells c p" and w: "length w < 32"
    and pre: "precedes_at i w p" and j: "j \<le> i"
  shows "first_diff c w (of_nat j) = Inr (of_nat i)"
  using j
proof (induction "i - j" arbitrary: j)
  case 0
  then have ji: "j = i" by simp
  from pre have ip: "i < length p" and iw: "i \<le> length w"
    and ch: "sint (char_at w (of_nat i)) < sint (p ! i)"
    by (simp_all add: precedes_at_def)
  have i32: "i < 2 ^ 32" using iw w by simp
  have ui: "unat (of_nat i :: Index) = i"
    using i32 by (rule unat_of_nat_Index)
  have ul: "unat (of_nat (length w) :: Index) = length w"
    using w by (simp add: unat_of_nat_Index)
  from sp ip have cl: "cur_letter c (of_nat i) = Inr (p ! i)"
    by (simp add: stack_spells_def)
  show ?case
  proof (cases "i < length w")
    case True
    from ch have "char_at w (of_nat i) \<noteq> p ! i" by auto
    with cl True show ?thesis
      unfolding ji
      by (subst first_diff.simps)
         (auto simp: cur_letter_def bindF_def split: sum.splits)
  next
    case False
    then have "\<not> (of_nat i :: Index) < of_nat (length w)"
      by (simp add: word_less_nat_alt ui ul)
    then show ?thesis
      unfolding ji by (subst first_diff.simps) simp
  qed
next
  case (Suc n)
  then have ji: "j < i" by simp
  from pre have ip: "i < length p" and iw: "i \<le> length w" and tk: "take i w = take i p"
    by (simp_all add: precedes_at_def)
  have jp: "j < length p" and jw: "j < length w" using ji ip iw by simp_all
  have uj: "unat (of_nat j :: Index) = j"
    using jw w by (simp add: unat_of_nat_Index)
  have ul: "unat (of_nat (length w) :: Index) = length w"
    using w by (simp add: unat_of_nat_Index)
  from sp jp have cl: "cur_letter c (of_nat j) = Inr (p ! j)"
    by (simp add: stack_spells_def)
  have eq: "w ! j = p ! j"
    using tk ji by (metis nth_take)
  have le: "(of_nat j :: Index) \<le> stack_pos c"
    using sp jp by (simp add: stack_spells_def word_le_nat_alt uj)
  have lt: "(of_nat j :: Index) < of_nat (length w)"
    using jw by (simp add: word_less_nat_alt uj ul)
  have "first_diff c w (of_nat j) = first_diff c w (of_nat j + 1)"
    using cl le lt eq jw
    by (subst first_diff.simps)
       (auto simp: cur_letter_def bindF_def char_at_def uj split: sum.splits)
  also have "of_nat j + 1 = (of_nat (Suc j) :: Index)"
    by simp
  also have "first_diff c w (of_nat (Suc j)) = Inr (of_nat i)"
    using Suc ji by (intro Suc.hyps(1)) simp_all
  finally show ?case .
qed

lemma add_word_out_of_order:
  assumes c: "\<not> unstarted c" and sp: "stack_spells c p" and p2: "2 \<le> length p"
    and w: "length w < 32" and pre: "precedes_at i w p"
  shows "add_word c w = Some (Inr (False, c\<lparr>error := Some WordOutOfOrder\<rparr>))"
proof -
  from pre have ip: "i < length p" and iw: "i \<le> length w"
    and ch: "sint (char_at w (of_nat i)) < sint (p ! i)"
    by (simp_all add: precedes_at_def)
  have ui: "unat (of_nat i :: Index) = i"
    using iw w by (simp add: unat_of_nat_Index)
  have pos: "stack_pos c > 0"
    using sp p2 by (simp add: stack_spells_def word_less_nat_alt)
  have fd: "first_diff c w 0 = Inr (of_nat i)"
    using first_diff_finds [OF sp w pre, of 0] by simp
  have le: "(of_nat i :: Index) \<le> stack_pos c"
    using sp ip by (simp add: stack_spells_def word_le_nat_alt ui)
  from sp ip have cl: "cur_letter c (of_nat i) = Inr (p ! i)"
    by (simp add: stack_spells_def)
  then obtain e where e: "bindF (get_cur_edge c (of_nat i)) (rd (edge_stack c)) = Inr e"
    and le': "letter e = p ! i"
    by (auto simp: cur_letter_def bindF_def split: sum.splits)
  have "rewind c w = Some (Inr (False, c\<lparr>error := Some WordOutOfOrder\<rparr>))"
    using pos fd le e le' ch by (simp add: rewind_def)
  with c w show ?thesis
    by (simp add: add_word_def unstarted_def MAX_WORD_LENGTH_def bindF_def)
qed

text \<open>
  The comparison where it is made. On a started \<^verbatim>\<open>Creator\<close> whose stack spells a previous
  word \<open>p\<close> of two or more letters, \<^verbatim>\<open>stack_pos_\<close> is positive and lines 265 to 277 run:
  \<^verbatim>\<open>add_word(w)\<close> returns \<^verbatim>\<open>FAILURE\<close> when, at the first position where \<open>w\<close> leaves \<open>p\<close>, the
  character of \<open>w\<close> is less than that of \<open>p\<close> in the comparison of line 274, which is
  one of \<^verbatim>\<open>char\<close> values.
\<close>

lemma add_word_rejects_preceding_word:
  assumes "\<not> unstarted c" and "stack_spells c p" and "2 \<le> length p"
    and "precedes_at i w p"
  shows "returned_failure (add_word c w)
         \<and> (length w < 32
              \<longrightarrow> add_word c w = Some (Inr (False, c\<lparr>error := Some WordOutOfOrder\<rparr>)))"
proof (cases "length w < 32")
  case True
  then show ?thesis
    using add_word_out_of_order [OF assms(1,2,3) True assms(4)]
    by (simp add: returned_failure_def)
next
  case False
  then show ?thesis
    using add_word_too_long [OF assms(1), of w]
    by (simp add: returned_failure_def MAX_WORD_LENGTH_def)
qed

lemma add_word_rejects_preceding_word_example:
  "add_word started [0x61, 0x62] = Some (Inr (True, after_ab))
   \<and> \<not> unstarted after_ab \<and> stack_spells after_ab [0x61, 0x62]
   \<and> precedes_at 1 [0x61, 0x61] [0x61, 0x62]
   \<and> add_word after_ab [0x61, 0x61] = Some (Inr (False, after_ab\<lparr>error := Some WordOutOfOrder\<rparr>))
   \<and> precedes_at 1 [0x61] [0x61, 0x62]
   \<and> add_word after_ab [0x61] = Some (Inr (False, after_ab\<lparr>error := Some WordOutOfOrder\<rparr>))"
proof -
  have a: "add_word started [0x61, 0x62] = Some (Inr (True, after_ab))"
    by (simp add: started_def after_ab_def eval_defs)
  have u: "\<not> unstarted after_ab"
    by (simp add: unstarted_def after_ab_def is_null_def)
  have s: "stack_spells after_ab [0x61, 0x62]"
    unfolding stack_spells_def
  proof (intro conjI allI impI)
    show "length [0x61, 0x62 :: cchar] = unat (stack_pos after_ab) + 1"
      by (simp add: after_ab_def)
  next
    fix i :: nat
    assume "i < length [0x61, 0x62 :: cchar]"
    then consider "i = 0" | "i = 1"
      by fastforce
    then show "cur_letter after_ab (of_nat i) = Inr ([0x61, 0x62] ! i)"
      by cases (simp_all add: cur_letter_def after_ab_def eval_defs)
  qed
  have p1: "precedes_at 1 [0x61, 0x61] [0x61, 0x62]"
    by (simp add: precedes_at_def char_at_def)
  have p2: "precedes_at 1 [0x61] [0x61, 0x62]"
    by (simp add: precedes_at_def char_at_def)
  show ?thesis
    using a u s p1 p2
      add_word_rejects_preceding_word [OF u s _ p1]
      add_word_rejects_preceding_word [OF u s _ p2]
    by simp
qed

text \<open>
  C4. The claim: on every started \<^verbatim>\<open>Creator\<close>, \<^verbatim>\<open>add_word(w)\<close> returns \<^verbatim>\<open>FAILURE\<close> (out of
  order) when \<open>w\<close> is not strictly greater, byte-wise, than the previously added word.
  The code returns \<^verbatim>\<open>SUCCESS\<close> for a smaller word in two cases. After \<^verbatim>\<open>add_word("b")\<close>,
  \<^verbatim>\<open>add_word("a")\<close> succeeds: the previous word has one letter, \<^verbatim>\<open>stack_pos_\<close> is 0, and
  line 262 takes that for an empty stack and skips the comparison. After
  \<^verbatim>\<open>add_word("a\xE9")\<close>, \<^verbatim>\<open>add_word("ab")\<close> succeeds: line 274 compares \<^verbatim>\<open>char\<close> values, which
  are signed here, and the byte 0xE9 is the negative \<^verbatim>\<open>char\<close> -23, less than \<^verbatim>\<open>'b'\<close>.
\<close>

theorem add_word_accepts_smaller_word:
  "(case add_word started [0x62] of
      Some (Inr (ok, c)) \<Rightarrow> ok \<and> returned_success (add_word c [0x61])
    | _ \<Rightarrow> False)
   \<and> (case add_word started [0x61, 0xE9] of
      Some (Inr (ok, c)) \<Rightarrow> ok \<and> returned_success (add_word c [0x61, 0x62])
    | _ \<Rightarrow> False)"
  by (simp add: started_def returned_success_def eval_defs)

text \<open>
  The same comparison of \<^verbatim>\<open>char\<close> values refuses a word that is greater byte-wise: after
  \<^verbatim>\<open>add_word("ab")\<close>, \<^verbatim>\<open>add_word("a\x80")\<close> returns \<^verbatim>\<open>FAILURE\<close>, out of order.
\<close>

lemma add_word_rejects_greater_high_byte:
  "(case add_word started [0x61, 0x62] of
      Some (Inr (ok, c)) \<Rightarrow> ok \<and> returned_failure (add_word c [0x61, 0x80])
         \<and> returned_error (add_word c [0x61, 0x80]) = Some WordOutOfOrder
    | _ \<Rightarrow> False)"
  by (simp add: started_def returned_failure_def returned_error_def eval_defs)

text \<open>
  The previous word itself: after \<^verbatim>\<open>add_word("ab")\<close> a second \<^verbatim>\<open>add_word("ab")\<close> finds no
  position that differs, does not reach line 274, returns \<^verbatim>\<open>SUCCESS\<close> and leaves the
  state as it was.
\<close>

lemma add_word_accepts_previous_word:
  "add_word started [0x61, 0x62] = Some (Inr (True, after_ab))
   \<and> add_word after_ab [0x61, 0x62] = Some (Inr (True, after_ab))"
  by (simp add: started_def after_ab_def eval_defs)




section \<open>The committed nodes\<close>

subsection \<open>The probe loop stops at an empty slot only after a run of mismatches\<close>

lemma probe_empty_slot_aux:
  assumes "probe c cand first idx step = Some y"
  shows "(\<forall>h LT T. y = Inr (Some h) \<longrightarrow> hash_table c = Some (LT, T) \<longrightarrow> T (unat h) = 0 \<longrightarrow>
      (\<exists>m. probe_path idx step m = h \<and> unat h < LT
         \<and> (\<forall>j<m. unat (probe_path idx step j) < LT
                \<and> T (unat (probe_path idx step j)) \<noteq> 0
                \<and> node_matches (edges c) (T (unat (probe_path idx step j))) cand = Inr False)))"
  using assms
proof (induction c cand first idx step y rule: probe.raw_induct)
  case (1 pr c cand first idx step y)
  show ?case
  proof (intro allI impI)
    fix h LT T
    assume y: "y = Inr (Some h)" and ht: "hash_table c = Some (LT, T)" and empty: "T (unat h) = 0"
    from "1.hyps" y obtain s where rd: "rd (hash_table c) (unat idx) = Inr s"
      by (auto split: sum.splits)
    with ht have lt: "unat idx < LT" and s: "s = T (unat idx)"
      by (auto simp: rd_def split: if_splits)
    show "\<exists>m. probe_path idx step m = h \<and> unat h < LT
         \<and> (\<forall>j<m. unat (probe_path idx step j) < LT
                \<and> T (unat (probe_path idx step j)) \<noteq> 0
                \<and> node_matches (edges c) (T (unat (probe_path idx step j))) cand = Inr False)"
    proof (cases "s = 0")
      case True
      with "1.hyps" rd y have "h = idx" by simp
      with lt show ?thesis by (intro exI [of _ 0]) simp
    next
      case False
      with "1.hyps" rd y obtain m where nm: "node_matches (edges c) s cand = Inr m"
        by (auto split: sum.splits)
      have notm: "\<not> m"
      proof
        assume m
        with "1.hyps" rd y False nm have "h = idx" by simp
        with empty s False show False by simp
      qed
      let ?i = "fst (next_probe (idx, step))" and ?s = "snd (next_probe (idx, step))"
      from "1.hyps" rd y False nm notm
      have rec: "pr c cand first ?i ?s = Some y"
        by (auto split: if_splits)
      from "1.prems" rd y False nm notm
      have rec': "probe c cand first ?i ?s = Some y"
        by (subst (asm) probe.simps) (auto split: if_splits)
      from "1.IH" [OF rec rec', rule_format, OF y ht empty]
      obtain m' where m': "probe_path ?i ?s m' = h" "unat h < LT"
        "\<forall>j<m'. unat (probe_path ?i ?s j) < LT \<and> T (unat (probe_path ?i ?s j)) \<noteq> 0
           \<and> node_matches (edges c) (T (unat (probe_path ?i ?s j))) cand = Inr False"
        by blast
      show ?thesis
      proof (intro exI [of _ "Suc m'"] conjI allI impI)
        show "probe_path idx step (Suc m') = h" using m'(1) by simp
        show "unat h < LT" by (rule m'(2))
      next
        fix j assume j: "j < Suc m'"
        show "unat (probe_path idx step j) < LT"
          using j lt m'(3) by (cases j) auto
        show "T (unat (probe_path idx step j)) \<noteq> 0"
          using j s False m'(3) by (cases j) auto
        show "node_matches (edges c) (T (unat (probe_path idx step j))) cand = Inr False"
          using j s nm notm m'(3) by (cases j) auto
      qed
    qed
  qed
qed (rule assms)

lemma unat_plus_1_Index: "unat (s :: Index) < 4294967295 \<Longrightarrow> unat (s + 1) = unat s + 1"
proof -
  assume "unat s < 4294967295"
  then have "unat s + unat (1 :: Index) < 2 ^ LENGTH(32)" by simp
  then have "unat (s + 1) = unat s + unat (1 :: Index)"
    by (simp only: unat_add_lem [THEN iffD1])
  then show ?thesis by simp
qed

lemma node_matches_run:
  "unat s + length ws \<le> LE \<Longrightarrow> LE < 4294967296
   \<Longrightarrow> map E [unat s ..< unat s + length ws] = ws
   \<Longrightarrow> node_matches (Some (LE, E)) s ws = Inr True"
proof (induction ws arbitrary: s)
  case Nil
  then show ?case by simp
next
  case (Cons x xs)
  from Cons.prems have lt: "unat s < LE" and s1: "unat (s + 1) = unat s + 1"
    by (simp_all add: unat_plus_1_Index)
  from Cons.prems(3) have hd: "E (unat s) = x"
    and tl: "map E [unat s + 1 ..< unat s + 1 + length xs] = xs"
    by (simp_all add: upt_conv_Cons del: upt_Suc)
  have "node_matches (Some (LE, E)) (s + 1) xs = Inr True"
    using Cons.prems tl by (intro Cons.IH) (simp_all add: s1)
  with lt hd show ?case
    by (simp add: rd_def)
qed

subsection \<open>Copying a node from the stack into the edge array\<close>

lemma unat_add_small:
  "unat (a :: Index) + unat b < 4294967296 \<Longrightarrow> unat (a + b) = unat a + unat b"
proof -
  assume "unat a + unat b < 4294967296"
  then have "unat a + unat b < 2 ^ LENGTH(32)" by simp
  then show ?thesis by (simp only: unat_add_lem [THEN iffD1])
qed

lemma get_edge_offset:
  "get_edge pos 0 + unat i < 4294967296 \<Longrightarrow> get_edge pos i = get_edge pos 0 + unat i"
  unfolding get_edge_def by (simp add: unat_add_small)

lemma copy_node_from:
  "edges c = Some (LE, E) \<Longrightarrow> edge_stack c = Some (8192, S)
    \<Longrightarrow> rd (num_edges_stack c) (unat pos) = Inr n \<Longrightarrow> i \<le> n
    \<Longrightarrow> (i < n \<longrightarrow> get_edge pos 0 + unat n \<le> 8192)
    \<Longrightarrow> unat idx + unat n \<le> LE \<Longrightarrow> LE < 2147483648
    \<Longrightarrow> copy_node c idx pos i
         = Inr (c\<lparr>edges := Some (LE, \<lambda>k. if unat idx + unat i \<le> k \<and> k < unat idx + unat n
                                            then S (get_edge pos 0 + (k - unat idx)) else E k)\<rparr>)"
proof (induction c idx pos i arbitrary: E rule: copy_node.induct)
  case (1 c idx pos i)
  note E = "1.prems"(1) and S = "1.prems"(2) and n = "1.prems"(3) and i = "1.prems"(4)
    and g = "1.prems"(5) and le = "1.prems"(6) and LE = "1.prems"(7)
  show ?case
  proof (cases "i < n")
    case True
    then have lt: "unat i < unat n"
      by (simp add: word_less_nat_alt)
    from g True have g: "get_edge pos 0 + unat n \<le> 8192"
      by simp
    have ge: "get_edge pos i = get_edge pos 0 + unat i"
      using lt g by (intro get_edge_offset) simp
    have ui: "unat (idx + i) = unat idx + unat i"
      using lt le LE by (intro unat_add_small) simp
    have u1: "unat (i + 1) = unat i + 1"
      using lt unsigned_less [of n, where 'a = nat] by (intro unat_plus_1_Index) simp
    let ?v = "S (get_edge pos 0 + unat i)"
    let ?E = "E(unat idx + unat i := ?v)"
    have r: "rd (edge_stack c) (get_edge pos i) = Inr ?v"
      using S lt g by (simp add: rd_def ge)
    have w: "wr (edges c) (unat (idx + i)) ?v = Inr (Some (LE, ?E))"
      using E lt le by (simp add: wr_def ui)
    let ?c = "c\<lparr>edges := Some (LE, ?E)\<rparr>"
    have step: "copy_node c idx pos i = copy_node ?c idx pos (i + 1)"
      using True by (subst copy_node.simps) (simp add: n r w)
    have i1: "i + 1 \<le> n"
      using True by (simp add: inc_le)
    have "copy_node ?c idx pos (i + 1)
          = Inr (?c\<lparr>edges := Some (LE, \<lambda>k. if unat idx + unat (i + 1) \<le> k \<and> k < unat idx + unat n
                         then S (get_edge pos 0 + (k - unat idx)) else ?E k)\<rparr>)"
      using S n i1 g le LE by (intro "1.IH" [OF n True r w]) (simp_all add: fun_eq_iff)
    moreover have "(\<lambda>k. if unat idx + unat (i + 1) \<le> k \<and> k < unat idx + unat n
                         then S (get_edge pos 0 + (k - unat idx)) else ?E k)
        = (\<lambda>k. if unat idx + unat i \<le> k \<and> k < unat idx + unat n
                         then S (get_edge pos 0 + (k - unat idx)) else E k)"
      using lt by (auto simp: fun_eq_iff u1)
    ultimately show ?thesis
      using step by simp
  next
    case False
    with i have "i = n" by simp
    moreover have "(\<lambda>k. if unat idx + unat n \<le> k \<and> k < unat idx + unat n
                         then S (get_edge pos 0 + (k - unat idx)) else E k) = E"
      by (auto simp: fun_eq_iff)
    moreover have "c\<lparr>edges := Some (LE, E)\<rparr> = c"
      using E by (metis Creator.surjective Creator.update_convs(2))
    ultimately show ?thesis
      using False by (subst copy_node.simps) (simp add: n)
  qed
qed

subsection \<open>The invariant is kept by finish_node\<close>

lemma canonicalI:
  assumes "edges c = Some (unat MAX_EDGES, E)"
    and "hash_table c = Some (unat HASH_TABLE_SIZE, T)"
    and "edge_stack c = Some (8192, S)"
    and "257 \<le> unat (num_edges c)" and "unat (num_edges c) \<le> unat MAX_EDGES"
    and "\<And>sn. sn \<in> set (committed c) \<Longrightarrow>
           257 \<le> fst sn \<and> fst sn + snd sn \<le> unat (num_edges c) \<and> located T (run E sn) (fst sn)"
    and "distinct (map (run E) (committed c))"
  shows "canonical c"
  unfolding canonical_def using assms by blast

lemma canonical_stack:
  assumes "canonical c" and "edges c' = edges c" and "hash_table c' = hash_table c"
    and "num_edges c' = num_edges c" and "committed c' = committed c"
    and "edge_stack c' = Some (8192, S')"
  shows "canonical c'"
  using assms unfolding canonical_def by auto

lemma modify_size: "modify (Some (L, f)) i g = Inr p \<Longrightarrow> \<exists>f'. p = Some (L, f')"
  by (auto simp: modify_def bindF_def rd_def wr_def split: if_splits)

lemma memset0_size: "memset0 (Some (L, f)) off n = Inr p \<Longrightarrow> \<exists>f'. p = Some (L, f')"
  by (auto simp: memset0_def split: if_splits)

lemma map_shift: "map (\<lambda>k. f (a + (k - b))) [b ..< b + n] = map f [a ..< a + n]"
  by (rule nth_equalityI) simp_all

lemma run_cong: "(\<And>k. k < fst sn + snd sn \<Longrightarrow> E' k = E k) \<Longrightarrow> run E' sn = run E sn"
  by (simp add: run_def)

lemma unat_MAX_EDGES: "unat MAX_EDGES = 1000002"
  by (simp add: MAX_EDGES_def HASH_TABLE_SIZE_def)

lemma commit_node_canonical:
  assumes inv: "canonical c"
    and cand: "read_edges (edge_stack c) (get_edge pos 0) (unat n) = Inr cand"
    and n: "rd (num_edges_stack c) (unat pos) = Inr n"
    and pr: "probe c cand (compute_hash cand mod HASH_TABLE_SIZE)
                (compute_hash cand mod HASH_TABLE_SIZE) 9 = Some (Inr (Some h))"
    and slot: "rd (hash_table c) (unat h) = Inr 0"
    and cm: "commit_node c pos h = Inr (ok, idx, c2)"
  shows "canonical c2"
proof -
  from inv obtain E T S where E: "edges c = Some (unat MAX_EDGES, E)"
    and T: "hash_table c = Some (unat HASH_TABLE_SIZE, T)"
    and S: "edge_stack c = Some (8192, S)"
    and N: "257 \<le> unat (num_edges c)" "unat (num_edges c) \<le> unat MAX_EDGES"
    and old: "\<forall>sn \<in> set (committed c). 257 \<le> fst sn \<and> fst sn + snd sn \<le> unat (num_edges c)
               \<and> located T (run E sn) (fst sn)"
    and dist: "distinct (map (run E) (committed c))"
    unfolding canonical_def by blast
  let ?N = "unat (num_edges c)" and ?n = "unat n" and ?off = "get_edge pos 0"
  let ?h0 = "compute_hash cand mod HASH_TABLE_SIZE"
  from read_edges_Inr [OF cand] S
  have cand_eq: "cand = map S [?off ..< ?off + ?n]" and bound: "?n \<noteq> 0 \<longrightarrow> ?off + ?n \<le> 8192"
    by auto
  then have n_small: "?n \<le> 8192" by (cases "?n = 0") auto
  have len: "length cand = ?n" using cand_eq by simp
  from slot T have hlt: "unat h < unat HASH_TABLE_SIZE" and Th: "T (unat h) = 0"
    by (auto simp: rd_def split: if_splits)
  from probe_empty_slot_aux [OF pr, rule_format, OF refl T Th]
  obtain m where m: "probe_path ?h0 9 m = h"
    and before: "\<forall>j<m. unat (probe_path ?h0 9 j) < unat HASH_TABLE_SIZE
           \<and> T (unat (probe_path ?h0 9 j)) \<noteq> 0
           \<and> node_matches (edges c) (T (unat (probe_path ?h0 9 j))) cand = Inr False"
    by blast
  have fresh: "cand \<noteq> run E sn" if sn: "sn \<in> set (committed c)" for sn
  proof
    assume eq: "cand = run E sn"
    from old sn have b: "257 \<le> fst sn" "fst sn + snd sn \<le> ?N" and loc: "located T (run E sn) (fst sn)"
      by auto
    from loc eq obtain k where k: "\<forall>j\<le>k. T (unat (probe_path ?h0 9 j)) \<noteq> 0"
      and at: "T (unat (probe_path ?h0 9 k)) = of_nat (fst sn)"
      unfolding located_def by auto
    have "k < m"
    proof (rule ccontr)
      assume "\<not> k < m"
      then have "m \<le> k" by simp
      with k have "T (unat (probe_path ?h0 9 m)) \<noteq> 0" by blast
      with m Th show False by simp
    qed
    with before at have mis: "node_matches (edges c) (of_nat (fst sn)) cand = Inr False"
      by auto
    have sl: "snd sn = length cand"
      using eq by (simp add: run_def)
    have us: "unat (of_nat (fst sn) :: Index) = fst sn"
      using b N by (intro unat_of_nat_Index) (simp add: unat_MAX_EDGES)
    have "map E [fst sn ..< fst sn + snd sn] = cand"
      using eq by (simp only: run_def)
    then have p3: "map E [fst sn ..< fst sn + length cand] = cand"
      by (simp only: sl [symmetric])
    have p1: "fst sn + length cand \<le> unat MAX_EDGES"
      using b N sl by simp
    have "node_matches (Some (unat MAX_EDGES, E)) (of_nat (fst sn)) cand = Inr True"
      using p1 p3 by (intro node_matches_run) (simp_all only: us, simp add: unat_MAX_EDGES)
    with mis E show False by simp
  qed
  show ?thesis
  proof (cases "num_edges c + n > MAX_EDGES")
    case True
    with cm n have "c2 = c\<lparr>error := Some DawgIsFull\<rparr>"
      by (simp add: commit_node_def bindF_def)
    with inv S show ?thesis
      by (intro canonical_stack [OF inv]) simp_all
  next
    case False
    have sum: "unat (num_edges c + n) = ?N + ?n"
      using N n_small by (intro unat_add_small) (simp add: unat_MAX_EDGES)
    with False have fits: "?N + ?n \<le> unat MAX_EDGES"
      by (simp add: word_less_nat_alt)
    let ?E = "\<lambda>k. if ?N + unat (0 :: Index) \<le> k \<and> k < ?N + ?n then S (?off + (k - ?N)) else E k"
    let ?c1 = "c\<lparr>edges := Some (unat MAX_EDGES, ?E)\<rparr>"
    have cp: "copy_node c (num_edges c) pos 0 = Inr ?c1"
      using E S n bound fits
      by (intro copy_node_from) (simp_all add: unat_MAX_EDGES word_less_nat_alt)
    let ?E' = "\<lambda>k. if ?N \<le> k \<and> k < ?N + ?n then S (?off + (k - ?N)) else E k"
    let ?T' = "T(unat h := num_edges c)"
    have "commit_node c pos h = Inr (True, num_edges c,
              c\<lparr>edges := Some (unat MAX_EDGES, ?E'),
                   hash_table := Some (unat HASH_TABLE_SIZE, ?T'),
                   num_edges := num_edges c + n,
                   committed := committed c @ [(?N, ?n)]\<rparr>)"
      using n False cp T hlt
      by (simp add: commit_node_def bindF_def wr_def rd_def)
    with cm have "Inr (ok, idx, c2) = (Inr (True, num_edges c,
              c\<lparr>edges := Some (unat MAX_EDGES, ?E'),
                   hash_table := Some (unat HASH_TABLE_SIZE, ?T'),
                   num_edges := num_edges c + n,
                   committed := committed c @ [(?N, ?n)]\<rparr>) :: fault + bool \<times> Index \<times> Creator)"
      by (simp only:)
    then have c2: "c2 = c\<lparr>edges := Some (unat MAX_EDGES, ?E'),
                   hash_table := Some (unat HASH_TABLE_SIZE, ?T'),
                   num_edges := num_edges c + n,
                   committed := committed c @ [(?N, ?n)]\<rparr>"
      by blast
    have new_run: "run ?E' (?N, ?n) = cand"
      unfolding run_def cand_eq by (rule nth_equalityI) simp_all
    have old_run: "run ?E' sn = run E sn" if "sn \<in> set (committed c)" for sn
      using old that by (intro run_cong) auto
    have nz: "num_edges c \<noteq> 0"
      using N by auto
    have keep: "?T' (unat (probe_path ?h0 9 j)) = T (unat (probe_path ?h0 9 j))"
      if "T (unat (probe_path ?h0 9 j)) \<noteq> 0" for j
      using that Th by (auto simp: fun_upd_def)
    have loc_old: "located ?T' (run ?E' sn) (fst sn)" if sn: "sn \<in> set (committed c)" for sn
    proof -
      from old sn have "located T (run E sn) (fst sn)" by blast
      then obtain k where k: "\<forall>j\<le>k. unat (probe_path (compute_hash (run E sn) mod HASH_TABLE_SIZE) 9 j) < unat HASH_TABLE_SIZE
                  \<and> T (unat (probe_path (compute_hash (run E sn) mod HASH_TABLE_SIZE) 9 j)) \<noteq> 0"
        and at: "T (unat (probe_path (compute_hash (run E sn) mod HASH_TABLE_SIZE) 9 k)) = of_nat (fst sn)"
        unfolding located_def by blast
      let ?p = "\<lambda>j. unat (probe_path (compute_hash (run E sn) mod HASH_TABLE_SIZE) 9 j)"
      have same: "?T' (?p j) = T (?p j)" if "j \<le> k" for j
      proof -
        from k that have "T (?p j) \<noteq> 0" by blast
        with Th have "?p j \<noteq> unat h" by auto
        then show ?thesis by simp
      qed
      show ?thesis
        unfolding located_def old_run [OF sn]
        using k at same by (intro exI [of _ k]) auto
    qed
    have loc_new: "located ?T' cand ?N"
      unfolding located_def
    proof (intro exI [of _ m] conjI allI impI)
      fix j assume j: "j \<le> m"
      show "unat (probe_path ?h0 9 j) < unat HASH_TABLE_SIZE"
        using j before m hlt by (cases "j = m") auto
      show "?T' (unat (probe_path ?h0 9 j)) \<noteq> 0"
      proof (cases "j = m")
        case True
        then show ?thesis using m nz by simp
      next
        case False
        with j before have "T (unat (probe_path ?h0 9 j)) \<noteq> 0" by auto
        moreover from this Th have "unat (probe_path ?h0 9 j) \<noteq> unat h" by auto
        ultimately show ?thesis by simp
      qed
    next
      show "?T' (unat (probe_path ?h0 9 m)) = of_nat ?N"
        using m by simp
    qed
    let ?c2 = "c\<lparr>edges := Some (unat MAX_EDGES, ?E'),
                   hash_table := Some (unat HASH_TABLE_SIZE, ?T'),
                   num_edges := num_edges c + n,
                   committed := committed c @ [(?N, ?n)]\<rparr>"
    have "canonical ?c2"
    proof (rule canonicalI [where E = ?E' and T = ?T' and S = S])
      show "edges ?c2 = Some (unat MAX_EDGES, ?E')" by simp
      show "hash_table ?c2 = Some (unat HASH_TABLE_SIZE, ?T')" by simp
      show "edge_stack ?c2 = Some (8192, S)" using S by simp
      show "257 \<le> unat (num_edges ?c2)" using N sum by simp
      show "unat (num_edges ?c2) \<le> unat MAX_EDGES" using fits sum by simp
      show "distinct (map (run ?E') (committed ?c2))"
      proof -
        have eqm: "map (run ?E') (committed c) = map (run E) (committed c)"
          using old_run by (intro map_cong) auto
        have nin: "cand \<notin> set (map (run E) (committed c))"
          using fresh by auto
        have "distinct (map (run ?E') (committed c @ [(?N, ?n)]))"
          unfolding map_append distinct_append eqm
          using dist nin new_run by simp
        then show ?thesis by simp
      qed
    next
      fix sn
      assume "sn \<in> set (committed ?c2)"
      then consider "sn \<in> set (committed c)" | "sn = (?N, ?n)"
        by auto
      then show "257 \<le> fst sn \<and> fst sn + snd sn \<le> unat (num_edges ?c2)
             \<and> located ?T' (run ?E' sn) (fst sn)"
      proof cases
        case 1
        with old loc_old sum show ?thesis by auto
      next
        case 2
        with N sum loc_new new_run show ?thesis by simp
      qed
    qed
    then show ?thesis
      unfolding c2 .
  qed
qed

lemma canonical_stack_size: "canonical c \<Longrightarrow> \<exists>S. edge_stack c = Some (8192, S)"
  unfolding canonical_def by blast

lemma finish_node_tail_canonical:
  assumes inv: "canonical c"
    and cand: "read_edges (edge_stack c) (get_edge pos 0) (unat n) = Inr cand"
    and n: "rd (num_edges_stack c) (unat pos) = Inr n"
    and pr: "probe c cand (compute_hash cand mod HASH_TABLE_SIZE)
                (compute_hash cand mod HASH_TABLE_SIZE) 9 = Some (Inr (Some h))"
    and tl: "finish_node_tail c pos h = Inr (ok, c')"
  shows "canonical c'"
proof -
  from tl obtain idx0 where slot: "rd (hash_table c) (unat h) = Inr idx0"
    by (auto simp: finish_node_tail_def bindF_def split: sum.splits)
  let ?first = "if idx0 = 0 then commit_node c pos h else Inr (True, idx0, c)"
  from tl slot obtain ok2 idx c2 where first: "?first = Inr (ok2, idx, c2)"
    by (cases ?first) (auto simp: finish_node_tail_def bindF_def)
  have inv2: "canonical c2"
  proof (cases "idx0 = 0")
    case True
    with first slot show ?thesis
      using commit_node_canonical [OF inv cand n pr, of ok2 idx c2] by simp
  next
    case False
    with first inv show ?thesis by simp
  qed
  show ?thesis
  proof (cases ok2)
    case False
    with tl slot first have "c' = c2"
      by (simp add: finish_node_tail_def bindF_def)
    with inv2 show ?thesis by simp
  next
    case True
    from canonical_stack_size [OF inv2] obtain S2 where S2: "edge_stack c2 = Some (8192, S2)" ..
    from tl slot first True obtain p st2 st3 ns where
      m: "modify (edge_stack c2) p (set_child idx) = Inr st2"
      and ms: "memset0 st2 (get_edge pos 0) (unat MAX_CHARS) = Inr st3"
      and c': "c' = c2\<lparr>edge_stack := st3, num_edges_stack := ns\<rparr>"
      by (auto simp: finish_node_tail_def bindF_def split: sum.splits)
    from m S2 obtain f2 where "st2 = Some (8192, f2)"
      using modify_size by metis
    with ms obtain f3 where "st3 = Some (8192, f3)"
      using memset0_size by metis
    with c' show ?thesis
      by (intro canonical_stack [OF inv2]) simp_all
  qed
qed

lemma finish_node_canonical:
  assumes inv: "canonical c" and fin: "finish_node c pos = Some (Inr (ok, c'))"
  shows "canonical c'"
proof -
  from canonical_stack_size [OF inv] obtain S where S: "edge_stack c = Some (8192, S)" ..
  from fin obtain st n r where
    st: "bindF (get_cur_edge c pos) (\<lambda>p. modify (edge_stack c) p (set_end_of_node True)) = Inr st"
    and n: "rd (num_edges_stack c) (unat pos) = Inr n"
    and r: "find_hash_index (c\<lparr>edge_stack := st\<rparr>) (get_edge pos 0) n = Some r"
    and res: "bindF r (\<lambda>out. case out of
                 None \<Rightarrow> Inr (False, c\<lparr>edge_stack := st, error := Some HashTableIsFull\<rparr>)
               | Some hash_idx \<Rightarrow> finish_node_tail (c\<lparr>edge_stack := st\<rparr>) pos hash_idx)
             = Inr (ok, c')"
    by (auto simp: finish_node_def split: sum.splits option.splits)
  from st S obtain S1 where S1: "st = Some (8192, S1)"
    by (auto simp: bindF_def dest: modify_size split: sum.splits)
  let ?c1 = "c\<lparr>edge_stack := st\<rparr>"
  have inv1: "canonical ?c1"
    using S1 by (intro canonical_stack [OF inv]) simp_all
  from res obtain out where out: "r = Inr out"
    by (cases r) (auto simp: bindF_def)
  show ?thesis
  proof (cases out)
    case None
    with res out have "c' = c\<lparr>edge_stack := st, error := Some HashTableIsFull\<rparr>"
      by (simp add: bindF_def)
    with S1 show ?thesis
      by (intro canonical_stack [OF inv]) simp_all
  next
    case (Some h)
    with res out have tl: "finish_node_tail ?c1 pos h = Inr (ok, c')"
      by (simp add: bindF_def)
    from r out Some obtain cand where
      cand: "read_edges (edge_stack ?c1) (get_edge pos 0) (unat n) = Inr cand"
      and pr: "probe ?c1 cand (compute_hash cand mod HASH_TABLE_SIZE)
                (compute_hash cand mod HASH_TABLE_SIZE) 9 = Some (Inr (Some h))"
      by (auto simp: find_hash_index_def split: sum.splits)
    have n1: "rd (num_edges_stack ?c1) (unat pos) = Inr n"
      using n by simp
    show ?thesis
      by (rule finish_node_tail_canonical [OF inv1 cand n1 pr tl])
  qed
qed

lemma finish_nodes_canonical:
  "canonical c \<Longrightarrow> finish_nodes c i = Some (Inr (ok, c')) \<Longrightarrow> canonical c'"
proof (induction c i arbitrary: ok c' rule: finish_nodes.induct)
  case (1 c i)
  show ?case
  proof (cases "stack_pos c > i")
    case False
    with "1.prems"(2) have "c' = c"
      by (subst (asm) finish_nodes.simps) simp
    with "1.prems"(1) show ?thesis by simp
  next
    case True
    with "1.prems"(2) obtain r where r: "finish_node c (stack_pos c) = Some r"
      by (subst (asm) finish_nodes.simps) (auto split: option.splits)
    with True "1.prems"(2) obtain sc where sc: "r = Inr sc"
      by (subst (asm) finish_nodes.simps) (auto split: sum.splits)
    have inv: "canonical (snd sc)"
      using finish_node_canonical [OF "1.prems"(1), of "stack_pos c" "fst sc" "snd sc"] r sc
      by simp
    show ?thesis
    proof (cases "fst sc")
      case False
      with True r sc "1.prems"(2) have "c' = snd sc"
        by (subst (asm) finish_nodes.simps) simp
      with inv show ?thesis by simp
    next
      case ok: True
      let ?c = "(snd sc)\<lparr>stack_pos := stack_pos c - 1\<rparr>"
      from canonical_stack_size [OF inv] obtain S where "edge_stack (snd sc) = Some (8192, S)" ..
      then have inv': "canonical ?c"
        by (intro canonical_stack [OF inv]) simp_all
      from True r sc ok "1.prems"(2) have "finish_nodes ?c i = Some (Inr (ok, c'))"
        by (subst (asm) finish_nodes.simps) simp
      with inv' show ?thesis
        using "1.IH" [OF True r sc _ inv'] ok by simp
    qed
  qed
qed

subsection \<open>The invariant is kept by add_word and holds after start\<close>

lemma append_letters_frame:
  "append_letters c w = Inr c' \<Longrightarrow> edge_stack c = Some (8192, S)
   \<Longrightarrow> edges c' = edges c \<and> hash_table c' = hash_table c \<and> num_edges c' = num_edges c
       \<and> committed c' = committed c \<and> (\<exists>S'. edge_stack c' = Some (8192, S'))"
proof (induction c w arbitrary: S rule: append_letters.induct)
  case (1 c word)
  show ?case
  proof (cases "stack_pos c < of_nat (length word)")
    case False
    with "1.prems" show ?thesis
      by (subst (asm) append_letters.simps) auto
  next
    case True
    with "1.prems"(1) obtain ns p st where
      ns: "modify (num_edges_stack c) (unat (stack_pos c)) (\<lambda>n. n + 1) = Inr ns"
      and p: "get_cur_edge (c\<lparr>num_edges_stack := ns\<rparr>) (stack_pos c) = Inr p"
      and st: "modify (edge_stack c) p (set_letter (char_at word (stack_pos c))) = Inr st"
      and rec: "append_letters (c\<lparr>num_edges_stack := ns, edge_stack := st,
                                   stack_pos := stack_pos c + 1\<rparr>) word = Inr c'"
      by (subst (asm) append_letters.simps) (auto split: sum.splits)
    from st "1.prems"(2) obtain S1 where S1: "st = Some (8192, S1)"
      using modify_size by metis
    from "1.IH" [OF True ns p st rec, of S1] S1 show ?thesis
      by simp
  qed
qed

lemma rewind_canonical:
  assumes inv: "canonical c" and rw: "rewind c w = Some (Inr (ok, c'))"
  shows "canonical c'"
proof -
  from canonical_stack_size [OF inv] obtain S where S: "edge_stack c = Some (8192, S)" ..
  show ?thesis
  proof (cases "stack_pos c > 0")
    case False
    with rw inv show ?thesis by (simp add: rewind_def)
  next
    case True
    with rw obtain i where i: "first_diff c w 0 = Inr i"
      by (auto simp: rewind_def split: sum.splits)
    show ?thesis
    proof (cases "i \<le> stack_pos c")
      case False
      with rw True i have "c' = c\<lparr>stack_pos := stack_pos c + 1\<rparr>"
        by (simp add: rewind_def)
      with S show ?thesis
        by (intro canonical_stack [OF inv]) simp_all
    next
      case le: True
      with rw True i obtain e where e: "bindF (get_cur_edge c i) (rd (edge_stack c)) = Inr e"
        by (auto simp: rewind_def split: sum.splits)
      show ?thesis
      proof (cases "sint (char_at w i) < sint (letter e)")
        case True
        with rw \<open>stack_pos c > 0\<close> i le e have "c' = c\<lparr>error := Some WordOutOfOrder\<rparr>"
          by (simp add: rewind_def)
        with S show ?thesis
          by (intro canonical_stack [OF inv]) simp_all
      next
        case False
        with rw \<open>stack_pos c > 0\<close> i le e have "finish_nodes c i = Some (Inr (ok, c'))"
          by (simp add: rewind_def)
        with inv show ?thesis
          by (rule finish_nodes_canonical)
      qed
    qed
  qed
qed

lemma add_word_canonical:
  assumes inv: "canonical c" and aw: "add_word c w = Some (Inr (ok, c'))"
  shows "canonical c'"
proof -
  from canonical_stack_size [OF inv] obtain S where S: "edge_stack c = Some (8192, S)" ..
  have nu: "\<not> (is_null (hash_table c) \<or> is_null (edges c) \<or> is_null (edge_stack c)
         \<or> is_null (num_edges_stack c))"
    using aw by (auto simp: add_word_def)
  show ?thesis
  proof (cases "length w \<ge> unat MAX_WORD_LENGTH")
    case True
    with aw nu have "c' = c\<lparr>error := Some WordIsTooLong\<rparr>"
      by (simp add: add_word_def)
    with S show ?thesis
      by (intro canonical_stack [OF inv]) simp_all
  next
    case False
    with aw nu obtain r where r: "rewind c w = Some r"
      by (auto simp: add_word_def split: option.splits)
    with aw nu False obtain ok1 c1 where r1: "r = Inr (ok1, c1)"
      by (cases r) (auto simp: add_word_def bindF_def)
    have inv1: "canonical c1"
      using rewind_canonical [OF inv] r r1 by simp
    show ?thesis
    proof (cases ok1)
      case False
      with aw nu \<open>\<not> length w \<ge> unat MAX_WORD_LENGTH\<close> r r1 have "c' = c1"
        by (simp add: add_word_def bindF_def)
      with inv1 show ?thesis by simp
    next
      case True
      with aw nu \<open>\<not> length w \<ge> unat MAX_WORD_LENGTH\<close> r r1 obtain c2 st where
        ap: "append_letters c1 w = Inr c2"
        and c': "c' = c2\<lparr>stack_pos := stack_pos c2 - 1, edge_stack := st\<rparr>"
        and st: "modify (edge_stack c2) (case get_cur_edge c2 (stack_pos c2 - 1) of Inr p \<Rightarrow> p) (set_end_of_word True) = Inr st"
        by (auto simp: add_word_def bindF_def split: sum.splits)
      from canonical_stack_size [OF inv1] obtain S1 where S1: "edge_stack c1 = Some (8192, S1)" ..
      from append_letters_frame [OF ap S1] obtain S2 where
        fr: "edges c2 = edges c1" "hash_table c2 = hash_table c1" "num_edges c2 = num_edges c1"
          "committed c2 = committed c1" and S2: "edge_stack c2 = Some (8192, S2)"
        by blast
      from st S2 obtain S3 where "st = Some (8192, S3)"
        using modify_size by metis
      with c' fr show ?thesis
        by (intro canonical_stack [OF inv1]) simp_all
    qed
  qed
qed

lemma start_canonical: "start c0 = Inr (ok, c) \<Longrightarrow> canonical c"
  unfolding canonical_def
  by (auto simp: start_def new_array_def const_defs split: if_splits)

lemma building_canonical: "building c \<Longrightarrow> canonical c"
  by (induction rule: building.induct) (auto intro: start_canonical add_word_canonical)

subsection \<open>The DAWG that finish returns\<close>

lemma load_mem_edges:
  assumes "load_mem d0 n (Some (L, f)) = Inr (ok, d)" and "unat n < 4294967295"
  shows "\<exists>f'. d_edges d = Some (unat n + 1, f') \<and> (\<forall>k < unat n. f' k = f k) \<and> d_num_edges d = n"
proof -
  have "unat (n + 1) = unat n + 1"
    using assms(2) by (rule unat_plus_1_Index)
  with assms(1) show ?thesis
    by (auto simp: load_mem_def DAWG_clear_def new_array_def memcpy_def bindF_def rd_def wr_def
          Let_def split: if_splits)
qed


lemma finish_distinct:
  assumes inv: "canonical c" and f: "finish c = Some (Inr (Some d, c'))"
  shows "distinct (map (node_words d) (committed c'))
     \<and> (\<forall>sn \<in> set (committed c'). 257 \<le> fst sn \<and> fst sn + snd sn \<le> unat (d_num_edges d))"
proof -
  have nu: "\<not> (is_null (hash_table c) \<or> is_null (edges c) \<or> is_null (edge_stack c)
         \<or> is_null (num_edges_stack c))"
    using f by (auto simp: finish_def)
  with f obtain r where r: "finish_nodes c 0 = Some r"
    by (auto simp: finish_def split: option.splits)
  with f nu obtain c1 where r1: "r = Inr (True, c1)"
    by (cases r) (auto simp: finish_def bindF_def split: if_splits)
  from f nu r r1 obtain p st c2 es ok2 where
    p: "get_cur_edge c1 0 = Inr p"
    and st: "modify (edge_stack c1) p (set_end_of_node True) = Inr st"
    and c2: "copy_root (c1\<lparr>edge_stack := st\<rparr>) 0 = Inr c2"
    and es: "modify (edges c2) (unat (1 + MAX_CHARS - 1)) (set_end_of_node True) = Inr es"
    and d: "load_mem DAWG_new (num_edges c2) es = Inr (ok2, d)"
    and c': "c' = Creator_clear (c2\<lparr>edges := es\<rparr>)"
    by (auto simp: finish_def bindF_def split: sum.splits)
  have inv1: "canonical c1"
    using finish_nodes_canonical [OF inv] r r1 by simp
  then obtain E S where E: "edges c1 = Some (unat MAX_EDGES, E)"
    and S: "edge_stack c1 = Some (8192, S)"
    and N: "257 \<le> unat (num_edges c1)" "unat (num_edges c1) \<le> unat MAX_EDGES"
    and old: "\<forall>sn \<in> set (committed c1). 257 \<le> fst sn \<and> fst sn + snd sn \<le> unat (num_edges c1)"
    and dist: "distinct (map (run E) (committed c1))"
    unfolding canonical_def by blast
  from st S obtain S' where S': "st = Some (8192, S')"
    using modify_size by metis
  let ?E2 = "\<lambda>k. if 0 < k \<and> k \<le> 256 then S' (k - 1) else E k"
  have "copy_root (c1\<lparr>edge_stack := st\<rparr>) 0
      = Inr (c1\<lparr>edge_stack := st, edges := Some (unat MAX_EDGES, ?E2)\<rparr>)"
    using E S' by (subst copy_root_eq [where n = "unat MAX_EDGES" and f = E and m = 8192 and g = S'])
      (simp_all add: unat_MAX_EDGES)
  with c2 have c2_eq: "c2 = c1\<lparr>edge_stack := st, edges := Some (unat MAX_EDGES, ?E2)\<rparr>"
    by simp
  have i256: "unat (1 + MAX_CHARS - 1) = 256"
    by (simp add: MAX_CHARS_def)
  from es c2_eq obtain E3 where E3: "es = Some (unat MAX_EDGES, E3)"
    and E3_eq: "\<And>k. 256 < k \<Longrightarrow> E3 k = E k"
    by (auto simp: modify_def bindF_def rd_def wr_def MAX_CHARS_def split: if_splits)
  have ne: "num_edges c2 = num_edges c1" and cm: "committed c' = committed c1"
    using c2_eq c' by (simp_all add: Creator_clear_def)
  have "unat (num_edges c1) < 4294967295"
    using N(2) by (simp add: unat_MAX_EDGES)
  with load_mem_edges [of DAWG_new "num_edges c2" "unat MAX_EDGES" E3 ok2 d] d E3 ne
  obtain F where F: "d_edges d = Some (unat (num_edges c1) + 1, F)"
    and F_eq: "\<And>k. k < unat (num_edges c1) \<Longrightarrow> F k = E3 k"
    and dn: "d_num_edges d = num_edges c1"
    by auto
  have same: "node_words d sn = run E sn" if "sn \<in> set (committed c1)" for sn
  proof -
    from old that have b: "257 \<le> fst sn" "fst sn + snd sn \<le> unat (num_edges c1)"
      by auto
    have "map F [fst sn ..< fst sn + snd sn] = map E [fst sn ..< fst sn + snd sn]"
      using b by (intro map_cong refl) (simp add: F_eq E3_eq)
    then show ?thesis
      by (simp add: node_words_def run_def F)
  qed
  have meq: "map (node_words d) (committed c1) = map (run E) (committed c1)"
    by (rule map_cong [OF refl]) (rule same)
  from dist have "distinct (map (node_words d) (committed c1))"
    by (simp only: meq)
  with old cm dn show ?thesis
    by simp
qed

text \<open>
  C2. In every \<^verbatim>\<open>DAWG\<close> that a successful \<^verbatim>\<open>Creator::finish\<close> returns, any two distinct
  committed nodes (the runs that \<^verbatim>\<open>finish_node\<close> copied into the edge array and
  registered in the hash table, in the order of their registration) have different
  edge sequences, compared as lists of full 32-bit words; and every committed run lies
  after the root node and within the edges of the \<^verbatim>\<open>DAWG\<close>. The \<^verbatim>\<open>Creator\<close> is any one
  reached from \<^verbatim>\<open>start\<close> by calls of \<^verbatim>\<open>add_word\<close> that returned.
\<close>

theorem committed_nodes_differ:
  assumes "building c" and "finish c = Some (Inr (Some d, c'))"
  shows "(\<forall>i < length (committed c'). \<forall>j < length (committed c'). i \<noteq> j \<longrightarrow>
            node_words d (committed c' ! i) \<noteq> node_words d (committed c' ! j))
       \<and> (\<forall>sn \<in> set (committed c'). 257 \<le> fst sn \<and> fst sn + snd sn \<le> unat (d_num_edges d))"
proof -
  have "canonical c"
    using assms(1) by (rule building_canonical)
  from finish_distinct [OF this assms(2)]
  have d: "distinct (map (node_words d) (committed c'))"
    and r: "\<forall>sn \<in> set (committed c'). 257 \<le> fst sn \<and> fst sn + snd sn \<le> unat (d_num_edges d)"
    by simp_all
  from d have "\<forall>i < length (committed c'). \<forall>j < length (committed c'). i \<noteq> j \<longrightarrow>
            node_words d (committed c' ! i) \<noteq> node_words d (committed c' ! j)"
    by (simp add: distinct_conv_nth)
  with r show ?thesis
    by simp
qed

text \<open>
  The words \<^verbatim>\<open>tap\<close> and \<^verbatim>\<open>top\<close>: the leaf \<^verbatim>\<open>p\<close> is committed once, at index 257, and
  shared; the node with the edges \<^verbatim>\<open>a\<close> and \<^verbatim>\<open>o\<close> is committed at index 258.
\<close>

theorem committed_nodes_differ_witness:
  "\<exists>c1 c2 d c'. add_word started [0x74, 0x61, 0x70] = Some (Inr (True, c1))
     \<and> add_word c1 [0x74, 0x6F, 0x70] = Some (Inr (True, c2))
     \<and> finish c2 = Some (Inr (Some d, c'))
     \<and> committed c' = [(257, 1), (258, 2)]
     \<and> node_words d (257, 1) = [0x370]
     \<and> node_words d (258, 2) = [0x40461, 0x4066F]
     \<and> node_words d (257, 1) \<noteq> node_words d (258, 2)"
proof -
  define c1 where "c1 = snd (projr (the (add_word started [0x74, 0x61, 0x70])))"
  define c2 where "c2 = snd (projr (the (add_word c1 [0x74, 0x6F, 0x70])))"
  define d where "d = the (fst (projr (the (finish c2))))"
  define c' where "c' = snd (projr (the (finish c2)))"
  have s: "start Creator_new = Inr (True, started)"
    by (simp add: start_def Creator_new_def started_def is_null_def new_array_def const_defs)
  have a1: "add_word started [0x74, 0x61, 0x70] = Some (Inr (True, c1))"
    by (simp add: c1_def started_def eval_defs)
  have a2: "add_word c1 [0x74, 0x6F, 0x70] = Some (Inr (True, c2))"
    by (simp add: c2_def c1_def started_def eval_defs)
  have f: "finish c2 = Some (Inr (Some d, c'))"
    by (simp add: d_def c'_def c2_def c1_def started_def eval_defs)
  have cm: "committed c' = [(257, 1), (258, 2)]"
    by (simp add: c'_def c2_def c1_def started_def eval_defs)
  have n1: "node_words d (257, 1) = [0x370]"
    by (simp add: node_words_def d_def c2_def c1_def started_def eval_defs)
  have n2: "node_words d (258, 2) = [0x40461, 0x4066F]"
    by (simp add: node_words_def d_def c2_def c1_def started_def eval_defs)
  have "building started"
    using s by (rule building.started)
  then have "building c1"
    using a1 by (rule building.added)
  then have b: "building c2"
    using a2 by (rule building.added)
  have "node_words d (committed c' ! 0) \<noteq> node_words d (committed c' ! 1)"
    using committed_nodes_differ [OF b f, THEN conjunct1, rule_format, of 0 1]
    by (simp add: cm)
  then have "node_words d (257, 1) \<noteq> node_words d (258, 2)"
    by (simp add: cm)
  with a1 a2 f cm n1 n2 show ?thesis
    by blast
qed

end
